theory Spec2Isabelle
  imports Main "HOL-Library.Word" "HOL-Library.Multiset"
begin

section \<open>The radix tree of routes (tree.go)\<close>

subsection \<open>Data model\<close>

text \<open>
  \<^verbatim>\<open>nodeType\<close> and \<^verbatim>\<open>node\<close> of tree.go. A handler chain is a Go slice, so it is
  either \<^verbatim>\<open>nil\<close> (\<open>None\<close>) or a list of handlers; the type of a handler is left open.
  The priority is a \<^verbatim>\<open>uint32\<close>. Children are owned by their parent, so the pointers
  of the source become a nested datatype and every mutation returns the rebuilt node.
\<close>

datatype nodeType = static | param | catchAll

datatype 'h node = Node
  (path: string)
  (indices: string)
  (children: "'h node list")
  (handlers: "'h list option")
  (priority: "32 word")
  (nType: nodeType)
  (wildChild: bool)
  (fullPath: string)

text \<open>Every \<^verbatim>\<open>panic\<close> of the source, and the run-time panics of Go's indexing and
  slicing, are values.\<close>

datatype panic =
    PathMustBeginWithSlash
  | ConflictWithWildcardRoute
  | HandlersAlreadyRegistered string
  | OnlyOneWildcardPerSegment
  | WildcardMustBeNamed
  | WildcardConflictsWithChildren
  | CatchAllOnlyAtEnd
  | CatchAllConflictsWithRoot
  | NoSlashBeforeCatchAll
  | InvalidNodeType
  | IndexOutOfRange

text \<open>The zero value \<^verbatim>\<open>&node{}\<close>, and a node count used as termination measure.\<close>

definition emptyNode :: "'h node" where
  "emptyNode = Node [] [] [] None 0 static False []"

fun nodes :: "'h node \<Rightarrow> nat" where
  "nodes (Node p ix cs h pr t w fp) = Suc (sum_list (map nodes cs))"

definition bumpPriority :: "'h node \<Rightarrow> 'h node" where
  "bumpPriority n = Node (path n) (indices n) (children n) (handlers n) (priority n + 1)
     (nType n) (wildChild n) (fullPath n)"

definition setChildren :: "'h node list \<Rightarrow> 'h node \<Rightarrow> 'h node" where
  "setChildren cs n = Node (path n) (indices n) cs (handlers n) (priority n)
     (nType n) (wildChild n) (fullPath n)"

subsection \<open>Helper functions of tree.go\<close>

fun longestCommonPrefix :: "string \<Rightarrow> string \<Rightarrow> nat" where
  "longestCommonPrefix (a # as) (b # bs) =
     (if a = b then Suc (longestCommonPrefix as bs) else 0)"
| "longestCommonPrefix _ _ = 0"

text \<open>The inner loop of \<^verbatim>\<open>findWildcard\<close>: the rest of the wildcard up to the next
  \<^verbatim>\<open>/\<close>, and whether a second sigil was seen on the way.\<close>

fun wildcardEnd :: "string \<Rightarrow> bool \<Rightarrow> string \<times> bool" where
  "wildcardEnd [] valid = ([], valid)"
| "wildcardEnd (c # cs) valid =
     (if c = CHR ''/'' then ([], valid)
      else (case wildcardEnd cs (if c = CHR '':'' \<or> c = CHR ''*'' then False else valid) of
              (w, v) \<Rightarrow> (c # w, v)))"

text \<open>\<^verbatim>\<open>findWildcard\<close>: \<open>None\<close> is the source's result \<^verbatim>\<open>("", -1, false)\<close>.\<close>

fun findWildcard :: "string \<Rightarrow> (string \<times> nat \<times> bool) option" where
  "findWildcard [] = None"
| "findWildcard (c # cs) =
     (if c \<noteq> CHR '':'' \<and> c \<noteq> CHR ''*''
      then (case findWildcard cs of None \<Rightarrow> None | Some (w, i, v) \<Rightarrow> Some (w, Suc i, v))
      else (case wildcardEnd cs True of (w, v) \<Rightarrow> Some (c # w, 0, v)))"

text \<open>\<^verbatim>\<open>for i, c := range []byte(n.indices) { if c == idxc ...\<close>: the first position
  of a byte.\<close>

fun indexByte :: "char \<Rightarrow> string \<Rightarrow> nat option" where
  "indexByte x [] = None"
| "indexByte x (c # cs) =
     (if c = x then Some 0 else map_option Suc (indexByte x cs))"

subsection \<open>incrementChildPrio\<close>

text \<open>The loop that swaps the child at \<open>newPos\<close> with its left neighbour while that
  neighbour's priority is lower.\<close>

fun moveForward :: "'h node list \<Rightarrow> nat \<Rightarrow> 32 word \<Rightarrow> 'h node list \<times> nat" where
  "moveForward cs 0 prio = (cs, 0)"
| "moveForward cs (Suc k) prio =
     (if priority (cs ! k) < prio
      then moveForward (cs[k := cs ! Suc k, Suc k := cs ! k]) k prio
      else (cs, Suc k))"

definition incrementChildPrio :: "'h node \<Rightarrow> nat \<Rightarrow> panic + ('h node \<times> nat)" where
  "incrementChildPrio n pos =
     (if length (children n) \<le> pos then Inl IndexOutOfRange
      else
        let cs = (children n)[pos := bumpPriority (children n ! pos)];
            prio = priority (cs ! pos)
        in case moveForward cs pos prio of
             (cs', newPos) \<Rightarrow>
               if newPos \<noteq> pos
               then if length (indices n) \<le> pos then Inl IndexOutOfRange
                    else Inr (Node (path n)
                                (take newPos (indices n) @ [indices n ! pos]
                                   @ drop newPos (take pos (indices n))
                                   @ drop (Suc pos) (indices n))
                                cs' (handlers n) (priority n) (nType n) (wildChild n)
                                (fullPath n),
                              newPos)
               else Inr (setChildren cs' n, newPos))"

subsection \<open>insertChild\<close>

function insertChild ::
  "'h node \<Rightarrow> string \<Rightarrow> string \<Rightarrow> 'h list option \<Rightarrow> panic + 'h node" where
  "insertChild n pth fullPth hs =
     (case findWildcard pth of
        None \<Rightarrow>
          Inr (Node pth (indices n) (children n) hs (priority n) (nType n) (wildChild n) fullPth)
      | Some (wildcard, i, valid) \<Rightarrow>
          if \<not> valid then Inl OnlyOneWildcardPerSegment
          else if length wildcard < 2 then Inl WildcardMustBeNamed
          else if 0 < length (children n) then Inl WildcardConflictsWithChildren
          else if hd wildcard = CHR '':'' then
            (let npath = (if 0 < i then take i pth else path n);
                 pth1 = (if 0 < i then drop i pth else pth)
             in if length wildcard < length pth1
                then (case insertChild (Node [] [] [] None 1 static False fullPth)
                             (drop (length wildcard) pth1) fullPth hs of
                        Inl e \<Rightarrow> Inl e
                      | Inr c \<Rightarrow>
                          Inr (Node npath (indices n)
                                 [Node wildcard [] [c] None 1 param False fullPth]
                                 (handlers n) (priority n) (nType n) True (fullPath n)))
                else Inr (Node npath (indices n)
                            [Node wildcard [] [] hs 1 param False fullPth]
                            (handlers n) (priority n) (nType n) True (fullPath n)))
          else if i + length wildcard \<noteq> length pth then Inl CatchAllOnlyAtEnd
          else if 0 < length (path n) \<and> last (path n) = CHR ''/''
            then Inl CatchAllConflictsWithRoot
          else if i = 0 then Inl IndexOutOfRange
          else if pth ! (i - 1) \<noteq> CHR ''/'' then Inl NoSlashBeforeCatchAll
          else Inr (Node (take (i - 1) pth) [CHR ''/'']
                      [Node [] []
                         [Node (drop (i - 1) pth) [] [] hs 1 catchAll False fullPth]
                         None 1 catchAll True fullPth]
                      (handlers n) (priority n) (nType n) (wildChild n) (fullPath n)))"
  by pat_completeness auto
termination
  by (relation "measure (\<lambda>(n, pth, fullPth, hs). length pth)") auto

subsection \<open>addRoute\<close>

text \<open>The edge split of \<^verbatim>\<open>addRoute\<close>: the node keeps the common prefix and gets one
  child that inherits the rest of the label, the children and the handlers.\<close>

definition splitEdge :: "'h node \<Rightarrow> string \<Rightarrow> string \<Rightarrow> nat \<Rightarrow> nat \<Rightarrow> 'h node" where
  "splitEdge n pth fullPth parentFullPathIndex i =
     Node (take i pth) [path n ! i]
       [Node (drop i (path n)) (indices n) (children n) (handlers n) (priority n - 1) static
          (wildChild n) (fullPath n)]
       None (priority n) (nType n) False (take (parentFullPathIndex + i) fullPth)"

text \<open>The condition under which the walk continues into an existing wildcard child.\<close>

definition wildcardMatches :: "'h node \<Rightarrow> string \<Rightarrow> bool" where
  "wildcardMatches n pth \<longleftrightarrow>
     length (path n) \<le> length pth \<and> path n = take (length (path n)) pth \<and>
     (length pth \<le> length (path n) \<or> pth ! length (path n) = CHR ''/'')"

lemma longestCommonPrefix_differs:
  "longestCommonPrefix a b < length a \<Longrightarrow> longestCommonPrefix a b < length b \<Longrightarrow>
   a ! longestCommonPrefix a b \<noteq> b ! longestCommonPrefix a b"
  by (induction a b rule: longestCommonPrefix.induct) auto

lemma nodes_nth_less:
  "k < length cs \<Longrightarrow> nodes (cs ! k) < Suc (sum_list (map nodes cs))"
proof (induction cs arbitrary: k)
  case Nil
  then show ?case by simp
next
  case (Cons c cs)
  then show ?case by (cases k) (auto simp: less_Suc_eq_le trans_le_add2)
qed

lemma nodes_children_less: "k < length (children n) \<Longrightarrow> nodes (children n ! k) < nodes n"
  by (cases n) (simp add: nodes_nth_less)

lemma nodes_bumpPriority [simp]: "nodes (bumpPriority n) = nodes n"
  by (cases n) (simp add: bumpPriority_def)

lemma moveForward_nodes:
  "moveForward cs k prio = (cs', k') \<Longrightarrow> k < length cs \<Longrightarrow>
   sum_list (map nodes cs') = sum_list (map nodes cs) \<and> length cs' = length cs \<and> k' \<le> k"
proof (induction cs k prio arbitrary: cs' k' rule: moveForward.induct)
  case (1 cs prio)
  then show ?case by simp
next
  case (2 cs k prio)
  show ?case
  proof (cases "priority (cs ! k) < prio")
    case True
    let ?sw = "cs[k := cs ! Suc k, Suc k := cs ! k]"
    from True 2 have mf: "moveForward ?sw k prio = (cs', k')" by simp
    from 2 have klen: "k < length ?sw" by simp
    have ms: "mset ?sw = mset cs"
      using 2(3) mset_swap [of "Suc k" cs k] by simp
    have "sum_list (map nodes ?sw) = sum_list (map nodes cs)"
    proof -
      have "mset (map nodes ?sw) = mset (map nodes cs)"
        using ms by (metis mset_map)
      then show ?thesis by (metis sum_mset_sum_list)
    qed
    with "2.IH" [OF True mf klen] show ?thesis by simp
  next
    case False
    with 2 show ?thesis by auto
  qed
qed

lemma incrementChildPrio_nodes:
  assumes "incrementChildPrio n pos = Inr (n', newPos)"
  shows "nodes n' = nodes n \<and> newPos < length (children n') \<and>
         length (children n') = length (children n)"
proof -
  from assms have pos: "pos < length (children n)"
    by (auto simp: incrementChildPrio_def split: if_splits)
  let ?cs = "(children n)[pos := bumpPriority (children n ! pos)]"
  obtain cs' k' where mf: "moveForward ?cs pos (priority (?cs ! pos)) = (cs', k')"
    by (cases "moveForward ?cs pos (priority (?cs ! pos))") auto
  from pos have "pos < length ?cs" by simp
  from moveForward_nodes [OF mf this]
  have a: "sum_list (map nodes cs') = sum_list (map nodes ?cs)" "length cs' = length ?cs" "k' \<le> pos"
    by auto
  have "map nodes ?cs = map nodes (children n)"
    using pos by (simp add: map_update list_update_same_conv)
  then have b: "sum_list (map nodes ?cs) = sum_list (map nodes (children n))"
    by simp
  from assms mf pos have n': "children n' = cs'" "newPos = k'"
    by (auto simp: incrementChildPrio_def Let_def setChildren_def split: if_splits)
  from assms mf pos have "nodes n' = Suc (sum_list (map nodes cs'))"
    by (cases n) (auto simp: incrementChildPrio_def Let_def setChildren_def split: if_splits)
  with a b n' pos show ?thesis by (cases n) auto
qed

text \<open>
  The \<^verbatim>\<open>walk\<close> loop of \<^verbatim>\<open>addRoute\<close>. Each iteration either returns or continues
  in one child, which is put back in its place once the walk below it has returned.
  \<^verbatim>\<open>child\<close>, the node appended for a new static edge, is a pointer in the source:
  after \<^verbatim>\<open>incrementChildPrio\<close> it is found at the new position when the position
  that was incremented is the last one, and in the last place otherwise.
\<close>

function walk ::
  "'h node \<Rightarrow> string \<Rightarrow> string \<Rightarrow> nat \<Rightarrow> 'h list option \<Rightarrow> panic + 'h node" where
  "walk n pth fullPth parentFullPathIndex hs =
     (let i = longestCommonPrefix pth (path n) in
      if i < length (path n) \<and> length fullPth < parentFullPathIndex + i
      then Inl IndexOutOfRange
      else
        let n1 = (if i < length (path n) then splitEdge n pth fullPth parentFullPathIndex i
                  else n)
        in if i < length pth then
             (let pth1 = drop i pth in
              if wildChild n1 then
                (case children n1 of
                   [] \<Rightarrow> Inl IndexOutOfRange
                 | c # cs \<Rightarrow>
                     if wildcardMatches c pth1
                     then (case walk (bumpPriority c) pth1 fullPth
                                  (parentFullPathIndex + length (path n1)) hs of
                             Inl e \<Rightarrow> Inl e
                           | Inr c' \<Rightarrow> Inr (setChildren (c' # cs) n1))
                     else Inl ConflictWithWildcardRoute)
              else
                (case indexByte (hd pth1) (indices n1) of
                   Some k \<Rightarrow>
                     (case incrementChildPrio n1 k of
                        Inl e \<Rightarrow> Inl e
                      | Inr (n2, k') \<Rightarrow>
                          (case walk (children n2 ! k') pth1 fullPth
                                  (parentFullPathIndex + length (path n1)) hs of
                             Inl e \<Rightarrow> Inl e
                           | Inr c' \<Rightarrow> Inr (setChildren ((children n2)[k' := c']) n2)))
                 | None \<Rightarrow>
                     if hd pth1 \<noteq> CHR '':'' \<and> hd pth1 \<noteq> CHR ''*'' then
                       (let n2 = Node (path n1) (indices n1 @ [hd pth1])
                                   (children n1 @ [Node [] [] [] None 0 static False fullPth])
                                   (handlers n1) (priority n1) (nType n1) (wildChild n1)
                                   (fullPath n1)
                        in case incrementChildPrio n2 (length (indices n2) - 1) of
                             Inl e \<Rightarrow> Inl e
                           | Inr (n3, k') \<Rightarrow>
                               (let childPos =
                                      (if length (indices n2) = length (children n2) then k'
                                       else length (children n2) - 1)
                                in case insertChild (children n3 ! childPos) pth1 fullPth hs of
                                     Inl e \<Rightarrow> Inl e
                                   | Inr c' \<Rightarrow>
                                       Inr (setChildren ((children n3)[childPos := c']) n3)))
                     else insertChild n1 pth1 fullPth hs))
           else if handlers n1 \<noteq> None then Inl (HandlersAlreadyRegistered fullPth)
           else Inr (Node (path n1) (indices n1) (children n1) hs (priority n1) (nType n1)
                       (wildChild n1) fullPth))"
  by pat_completeness auto
termination
proof (relation "measure (\<lambda>(n, pth, fullPth, pfi, hs). nodes n)", goal_cases)
  case 1
  show ?case by simp
next
  case (2 n pth fullPth pfi hs i n1 pth1 c cs)
  then show ?case
    by (cases n) (auto simp: splitEdge_def split: if_splits)
next
  case (3 n pth fullPth pfi hs i n1 pth1 k x n2 k')
  show ?case
  proof (cases "i < length (path n)")
    case True
    with 3 have "indexByte (hd (drop i pth)) [path n ! i] = Some k"
      by (simp add: splitEdge_def)
    moreover from 3 True have "hd (drop i pth) \<noteq> path n ! i"
      using longestCommonPrefix_differs [of pth "path n"] by (simp add: hd_drop_conv_nth)
    ultimately show ?thesis by simp
  next
    case False
    with 3 have "incrementChildPrio n k = Inr (n2, k')" by simp
    from incrementChildPrio_nodes [OF this] show ?thesis
      using nodes_children_less [of k' n2] by simp
  qed
qed

text \<open>\<^verbatim>\<open>addRoute\<close> of the tree.\<close>

definition addRoute :: "'h node \<Rightarrow> string \<Rightarrow> 'h list option \<Rightarrow> panic + 'h node" where
  "addRoute n0 pth hs =
     (let n = bumpPriority n0 in
      if length (path n) = 0 \<and> length (children n) = 0
      then (case insertChild n pth pth hs of
              Inl e \<Rightarrow> Inl e
            | Inr n' \<Rightarrow> Inr (Node (path n') (indices n') (children n') (handlers n')
                              (priority n') static (wildChild n') (fullPath n')))
      else walk n pth pth 0 hs)"

subsection \<open>getValue\<close>

text \<open>
  The result of \<^verbatim>\<open>getValue\<close> is the triple of its named results: the handler chain,
  the parameter map (\<open>None\<close> is the \<^verbatim>\<open>nil\<close> map) and the full path. Not-found is
  \<^verbatim>\<open>nil, nil, ""\<close>. The local \<^verbatim>\<open>prefix\<close> of the source is \<open>path n\<close>.
\<close>

type_synonym 'h lookup = "'h list option \<times> (string \<rightharpoonup> string) option \<times> string"

definition notFound :: "'h lookup" where
  "notFound = (None, None, [])"

lemma nodes_hd_children_less: "children n = c # cs \<Longrightarrow> nodes c < nodes n"
  using nodes_children_less [of 0 n] by simp

function getValue_walk ::
  "'h node \<Rightarrow> string \<Rightarrow> (string \<rightharpoonup> string) \<Rightarrow> panic + 'h lookup" where
  "getValue_walk n pth params =
     (if length (path n) < length pth then
        if take (length (path n)) pth = path n then
          (let pth1 = drop (length (path n)) pth in
           case indexByte (hd pth1) (indices n) of
             Some i \<Rightarrow>
               if i < length (children n) then getValue_walk (children n ! i) pth1 params
               else Inl IndexOutOfRange
           | None \<Rightarrow>
               if wildChild n then
                 (case children n of
                    [] \<Rightarrow> Inl IndexOutOfRange
                  | c # _ \<Rightarrow>
                      (case nType c of
                         param \<Rightarrow>
                           (let end = length (takeWhile (\<lambda>x. x \<noteq> CHR ''/'') pth1) in
                            if length (path c) < 1 then Inl IndexOutOfRange
                            else
                              let params1 = params(drop 1 (path c) \<mapsto> take end pth1) in
                              if end < length pth1 then
                                (case children c of
                                   c2 # _ \<Rightarrow> getValue_walk c2 (drop end pth1) params1
                                 | [] \<Rightarrow> Inr notFound)
                              else Inr (handlers c, Some params1, fullPath c))
                       | catchAll \<Rightarrow>
                           if length (path c) < 2 then Inl IndexOutOfRange
                           else Inr (handlers c, Some (params(drop 2 (path c) \<mapsto> pth1)),
                                     fullPath c)
                       | static \<Rightarrow> Inl InvalidNodeType))
               else Inr notFound)
        else Inr notFound
      else if pth = path n then
        (if handlers n \<noteq> None then Inr (handlers n, Some params, fullPath n)
         else Inr notFound)
      else Inr notFound)"
  by pat_completeness auto
termination
proof (relation "measure (\<lambda>(n, pth, params). nodes n)", goal_cases)
  case 1
  show ?case by simp
next
  case (2 n pth params pth1 c cs e ps c2 cs2)
  then show ?case
    using nodes_hd_children_less [of n c cs] nodes_hd_children_less [of c c2 cs2] by simp
next
  case (3 n pth params pth1 i)
  then show ?case by (simp add: nodes_children_less)
qed

definition getValue :: "'h node \<Rightarrow> string \<Rightarrow> panic + 'h lookup" where
  "getValue n pth = getValue_walk n pth Map.empty"

section \<open>Registration and lookup in the engine (drift.go)\<close>

text \<open>
  \<^verbatim>\<open>Engine.addRoute\<close>: the check of the first byte (reading it in an empty path is a
  run-time panic), the tree of the method, created when missing, and the copy of the
  chain, which is never \<^verbatim>\<open>nil\<close>. The engine's trees are a map from method to root.
  The exported \<^verbatim>\<open>NewNode\<close>, \<^verbatim>\<open>AddRoute\<close> and \<^verbatim>\<open>GetValue\<close> it calls are
  \<open>emptyNode\<close>, \<open>addRoute\<close> and \<open>getValue\<close> of tree.go.
\<close>

definition Engine_addRoute ::
  "(string \<rightharpoonup> 'h node) \<Rightarrow> string \<Rightarrow> string \<Rightarrow> 'h list \<Rightarrow> panic + (string \<rightharpoonup> 'h node)" where
  "Engine_addRoute trees method pth hs =
     (case pth of
        [] \<Rightarrow> Inl IndexOutOfRange
      | c # _ \<Rightarrow>
          if c \<noteq> CHR ''/'' then Inl PathMustBeginWithSlash
          else
            let root = (case trees method of None \<Rightarrow> emptyNode | Some r \<Rightarrow> r)
            in case addRoute root pth (Some hs) of
                 Inl e \<Rightarrow> Inl e
               | Inr root' \<Rightarrow> Inr (trees(method \<mapsto> root')))"

text \<open>Registering a list of routes in order; the first panic ends it.\<close>

fun registerAll ::
  "(string \<rightharpoonup> 'h node) \<Rightarrow> (string \<times> string \<times> 'h list) list \<Rightarrow> panic + (string \<rightharpoonup> 'h node)" where
  "registerAll trees [] = Inr trees"
| "registerAll trees ((method, pth, hs) # rs) =
     (case Engine_addRoute trees method pth hs of
        Inl e \<Rightarrow> Inl e
      | Inr trees' \<Rightarrow> registerAll trees' rs)"

text \<open>The lookup of \<^verbatim>\<open>handleRequest\<close>: not-found when the method has no tree.\<close>

definition Engine_lookup :: "(string \<rightharpoonup> 'h node) \<Rightarrow> string \<Rightarrow> string \<Rightarrow> panic + 'h lookup" where
  "Engine_lookup trees method pth =
     (case trees method of None \<Rightarrow> Inr notFound | Some root \<Rightarrow> getValue root pth)"

text \<open>Registering routes into an empty engine, then looking a path up.\<close>

definition lookupAfter ::
  "(string \<times> string \<times> 'h list) list \<Rightarrow> string \<Rightarrow> string \<Rightarrow> panic + 'h lookup" where
  "lookupAfter rs method pth =
     (case registerAll Map.empty rs of
        Inl e \<Rightarrow> Inl e
      | Inr trees \<Rightarrow> Engine_lookup trees method pth)"

text \<open>The value a lookup bound to a parameter name, when it succeeded.\<close>

definition boundParam :: "panic + 'h lookup \<Rightarrow> string \<Rightarrow> string option" where
  "boundParam r k = (case r of Inr (h, Some ps, fp) \<Rightarrow> ps k | _ \<Rightarrow> None)"

section \<open>Route groups (router.go)\<close>

definition joinPaths :: "string \<Rightarrow> string \<Rightarrow> string" where
  "joinPaths absolutePath relativePath =
     (if relativePath = [] then absolutePath
      else
        let finalPath = (if absolutePath = [] then ''/'' else absolutePath)
        in if hd relativePath = CHR ''/''
           then (if finalPath = ''/'' then relativePath else finalPath @ relativePath)
           else if last finalPath = CHR ''/'' then finalPath @ relativePath
           else finalPath @ ''/'' @ relativePath)"

section \<open>The request context and chain execution (Context, Next, Abort)\<close>

text \<open>
  A handler is a Go function on the context. What the chain engine can see of it is
  the sequence of calls it makes on the context, so a handler is modelled by that
  sequence. Values of the store and response payloads are strings.
\<close>

datatype action =
    CallNext
  | CallAbort
  | CallAbortWithStatus int
  | CallAbortWithStatusJSON int string
  | CallSet string string
  | CallStatus int
  | CallJSON int string

type_synonym handler = "action list"

text \<open>What was sent to the \<^verbatim>\<open>http.ResponseWriter\<close> of the request.\<close>

datatype written = SetHeader string string | WriteHeader int | WriteBody string

record request =
  Method :: string
  Path :: string
  RawQuery :: string

text \<open>
  \<^verbatim>\<open>Context\<close>. The cursor \<^verbatim>\<open>index\<close> is an \<^verbatim>\<open>int8\<close>. \<^verbatim>\<open>Params\<close> and
  \<^verbatim>\<open>store\<close> are Go maps, \<open>None\<close> when \<^verbatim>\<open>nil\<close>; the chain is a slice, whose
  \<^verbatim>\<open>nil\<close> value has length 0 like the empty one. The mutex is left out.
\<close>

record Context =
  Request :: request
  Response :: "written list"
  Params :: "(string \<rightharpoonup> string) option"
  Query :: string
  handlers_ctx :: "handler list"
  index :: "8 word"
  store :: "(string \<rightharpoonup> string) option"
  aborted :: bool
  statusCode :: int

text \<open>A call either returns or panics; the state it had reached is kept in both cases.\<close>

datatype 's outcome = Returned 's | Panicked 's

definition Abort :: "Context \<Rightarrow> Context" where
  "Abort c = c\<lparr>aborted := True\<rparr>"

definition Status :: "int \<Rightarrow> Context \<Rightarrow> Context" where
  "Status code c = c\<lparr>statusCode := code, Response := Response c @ [WriteHeader code]\<rparr>"

definition JSON :: "int \<Rightarrow> string \<Rightarrow> Context \<Rightarrow> Context" where
  "JSON code payload c =
     c\<lparr>statusCode := code,
       Response := Response c @
         [SetHeader ''Content-Type'' ''application/json'', WriteHeader code, WriteBody payload]\<rparr>"

text \<open>\<^verbatim>\<open>Set\<close> writes into the store; writing into a \<^verbatim>\<open>nil\<close> map panics.\<close>

definition Set_ctx :: "string \<Rightarrow> string \<Rightarrow> Context \<Rightarrow> Context outcome" where
  "Set_ctx key v c =
     (case store c of
        None \<Rightarrow> Panicked c
      | Some m \<Rightarrow> Returned (c\<lparr>store := Some (m(key \<mapsto> v))\<rparr>))"

text \<open>The calls of a handler other than \<^verbatim>\<open>Next\<close>.\<close>

fun perform :: "action \<Rightarrow> Context \<Rightarrow> Context outcome" where
  "perform CallAbort c = Returned (Abort c)"
| "perform (CallAbortWithStatus code) c = Returned (Abort (Status code c))"
| "perform (CallAbortWithStatusJSON code payload) c = Returned (JSON code payload (Abort c))"
| "perform (CallSet key v) c = Set_ctx key v c"
| "perform (CallStatus code) c = Returned (Status code c)"
| "perform (CallJSON code payload) c = Returned (JSON code payload c)"
| "perform CallNext c = Returned c"

text \<open>
  \<^verbatim>\<open>Next\<close>, its loop, and the body of a handler, which may call \<^verbatim>\<open>Next\<close>
  again. The state is the context with the list of the chain positions whose handlers
  have been invoked so far, in order (a record kept by the model, not by the source).
  The first argument bounds the number of steps: \<open>None\<close> means it did not suffice.
  \<^verbatim>\<open>c.index < int8(len(c.handlers))\<close> compares signed 8-bit values; indexing the
  slice with a negative cursor panics.
\<close>

type_synonym run = "Context \<times> nat list"

fun Next :: "nat \<Rightarrow> run \<Rightarrow> run outcome option"
  and Next_loop :: "nat \<Rightarrow> run \<Rightarrow> run outcome option"
  and invoke :: "nat \<Rightarrow> handler \<Rightarrow> run \<Rightarrow> run outcome option" where
  "Next 0 s = None"
| "Next (Suc n) (c, tr) = Next_loop n (c\<lparr>index := index c + 1\<rparr>, tr)"
| "Next_loop 0 s = None"
| "Next_loop (Suc n) (c, tr) =
     (if sint (index c) < sint (of_nat (length (handlers_ctx c)) :: 8 word) then
        if aborted c then Some (Returned (c, tr))
        else if sint (index c) < 0 \<or> int (length (handlers_ctx c)) \<le> sint (index c)
          then Some (Panicked (c, tr))
        else (case invoke n (handlers_ctx c ! nat (sint (index c)))
                     (c, tr @ [nat (sint (index c))]) of
                None \<Rightarrow> None
              | Some (Panicked s) \<Rightarrow> Some (Panicked s)
              | Some (Returned (c', tr')) \<Rightarrow> Next_loop n (c'\<lparr>index := index c' + 1\<rparr>, tr'))
      else Some (Returned (c, tr)))"
| "invoke 0 as s = None"
| "invoke (Suc n) [] s = Some (Returned s)"
| "invoke (Suc n) (a # as) (c, tr) =
     (if a = CallNext
      then (case Next n (c, tr) of
              None \<Rightarrow> None
            | Some (Panicked s) \<Rightarrow> Some (Panicked s)
            | Some (Returned s) \<Rightarrow> invoke n as s)
      else (case perform a c of
              Panicked c' \<Rightarrow> Some (Panicked (c', tr))
            | Returned c' \<Rightarrow> invoke n as (c', tr)))"

section \<open>Serving a request (drift.go)\<close>

text \<open>The zero \<^verbatim>\<open>&Context{}\<close> that the pool's \<^verbatim>\<open>New\<close> makes.\<close>

definition zeroContext :: "Context" where
  "zeroContext =
     \<lparr>Request = \<lparr>Method = [], Path = [], RawQuery = []\<rparr>, Response = [], Params = None,
      Query = [], handlers_ctx = [], index = 0, store = None, aborted = False,
      statusCode = 0\<rparr>"

text \<open>\<^verbatim>\<open>pool.Get\<close>: a context that was put back, or a new one.\<close>

definition poolGet :: "Context list \<Rightarrow> Context \<times> Context list" where
  "poolGet pool = (case pool of [] \<Rightarrow> (zeroContext, []) | c # cs \<Rightarrow> (c, cs))"

text \<open>The assignments at the start of \<^verbatim>\<open>ServeHTTP\<close>; \<open>w\<close> is what the response
  writer of the request holds, \<open>[]\<close> for a new response.\<close>

definition resetContext :: "Context \<Rightarrow> written list \<Rightarrow> request \<Rightarrow> Context" where
  "resetContext c w req =
     c\<lparr>Response := w, Request := req, Params := Some Map.empty, Query := RawQuery req,
       store := Some Map.empty, index := - 1, aborted := False, statusCode := 200\<rparr>"

definition notFoundHandler :: handler where
  "notFoundHandler = [CallJSON 404 ''error: Not Found'']"

text \<open>\<^verbatim>\<open>handleRequest\<close> up to its call of \<^verbatim>\<open>c.Next()\<close>: the context the chain
  starts in.\<close>

definition handleRequest_prepare ::
  "(string \<rightharpoonup> handler node) \<Rightarrow> Context \<Rightarrow> Context outcome" where
  "handleRequest_prepare trees c =
     (case Engine_lookup trees (Method (Request c)) (Path (Request c)) of
        Inl e \<Rightarrow> Panicked c
      | Inr (routerHandlers, params, fullPth) \<Rightarrow>
          (case routerHandlers of
             Some hs \<Rightarrow> Set_ctx ''_fullPath'' fullPth (c\<lparr>handlers_ctx := hs, Params := params\<rparr>)
           | None \<Rightarrow> Returned (c\<lparr>handlers_ctx := [notFoundHandler]\<rparr>)))"

definition handleRequest ::
  "nat \<Rightarrow> (string \<rightharpoonup> handler node) \<Rightarrow> Context \<Rightarrow> run outcome option" where
  "handleRequest fuel trees c =
     (case handleRequest_prepare trees c of
        Panicked c' \<Rightarrow> Some (Panicked (c', []))
      | Returned c' \<Rightarrow> Next fuel (c', []))"

text \<open>\<^verbatim>\<open>ServeHTTP\<close>: the result is the run of the chain and the pool afterwards. A
  panic leaves the context out of the pool.\<close>

definition ServeHTTP ::
  "nat \<Rightarrow> (string \<rightharpoonup> handler node) \<Rightarrow> Context list \<Rightarrow> written list \<Rightarrow> request \<Rightarrow>
   (run outcome \<times> Context list) option" where
  "ServeHTTP fuel trees pool w req =
     (case poolGet pool of
        (c, pool') \<Rightarrow>
          (case handleRequest fuel trees (resetContext c w req) of
             None \<Rightarrow> None
           | Some (Panicked s) \<Rightarrow> Some (Panicked s, pool')
           | Some (Returned (c', tr)) \<Rightarrow> Some (Returned (c', tr), c' # pool')))"

declare insertChild.simps [simp del] walk.simps [simp del] getValue_walk.simps [simp del]

section \<open>Lookup of single patterns\<close>

lemma takeWhile_short:
  "length (takeWhile P xs) < length xs \<longleftrightarrow> (\<exists>x\<in>set xs. \<not> P x)"
  by (induction xs) auto

lemma takeWhile_full:
  "\<not> length (takeWhile P xs) < length xs \<Longrightarrow> take (length (takeWhile P xs)) xs = xs"
  by (simp add: takeWhile_short takeWhile_eq_all_conv [THEN iffD2])

text \<open>A node whose only child is a parameter that ends its pattern: the lookup of the
  node's label followed by \<open>v\<close> succeeds exactly when \<open>v\<close> is one non-empty segment.\<close>

lemma getValue_walk_param_leaf:
  "getValue_walk (Node pre [] [Node (c # nm) [] [] h pr param w fp] None pr0 t0 True fp0)
     (pre @ v) ps =
   (if v \<noteq> [] \<and> CHR ''/'' \<notin> set v then Inr (h, Some (ps(nm \<mapsto> v)), fp)
    else Inr notFound)"
  by (subst getValue_walk.simps) (auto simp: Let_def takeWhile_short takeWhile_full)

text \<open>The two nodes that \<^verbatim>\<open>insertChild\<close> builds for a catch-all.\<close>

lemma getValue_walk_catchAll:
  "getValue_walk
     (Node pre ''/'' [Node [] [] [Node (a # b # nm) [] [] h pr catchAll w fp] None pr1 catchAll
        True fp1] None pr0 t0 False fp0)
     (pre @ v) ps =
   (if v \<noteq> [] \<and> hd v = CHR ''/'' then Inr (h, Some (ps(nm \<mapsto> v)), fp) else Inr notFound)"
proof (cases v)
  case Nil
  then show ?thesis by (subst getValue_walk.simps) simp
next
  case (Cons x xs)
  show ?thesis
  proof (cases "x = CHR ''/''")
    case True
    with Cons show ?thesis
      by (subst getValue_walk.simps, simp add: Let_def)
         (subst getValue_walk.simps, simp add: Let_def)
  next
    case False
    with Cons show ?thesis by (subst getValue_walk.simps) (simp add: Let_def)
  qed
qed

definition usersIdTree :: "'h list \<Rightarrow> 'h node" where
  "usersIdTree hs =
     Node ''/users/'' [] [Node '':id'' [] [] (Some hs) 1 param False ''/users/:id'']
       None 1 static True []"

definition filesRestTree :: "'h list \<Rightarrow> 'h node" where
  "filesRestTree hs =
     Node ''/files'' ''/''
       [Node [] [] [Node ''/*rest'' [] [] (Some hs) 1 catchAll False ''/files/*rest'']
          None 1 catchAll True ''/files/*rest'']
       None 1 static False []"

lemma register_usersId:
  "registerAll Map.empty [(m, ''/users/:id'', hs)] = Inr [m \<mapsto> usersIdTree hs]"
  by (simp add: Engine_addRoute_def addRoute_def bumpPriority_def emptyNode_def
      usersIdTree_def Let_def insertChild.simps)

lemma register_filesRest:
  "registerAll Map.empty [(m, ''/files/*rest'', hs)] = Inr [m \<mapsto> filesRestTree hs]"
  by (simp add: Engine_addRoute_def addRoute_def bumpPriority_def emptyNode_def
      filesRestTree_def Let_def insertChild.simps)

lemma getValue_usersId:
  "getValue (usersIdTree hs) (''/users/'' @ v) =
   (if v \<noteq> [] \<and> CHR ''/'' \<notin> set v
    then Inr (Some hs, Some [''id'' \<mapsto> v], ''/users/:id'') else Inr notFound)"
  unfolding getValue_def usersIdTree_def by (rule getValue_walk_param_leaf)

lemma getValue_filesRest:
  "getValue (filesRestTree hs) (''/files'' @ v) =
   (if v \<noteq> [] \<and> hd v = CHR ''/''
    then Inr (Some hs, Some [''rest'' \<mapsto> v], ''/files/*rest'') else Inr notFound)"
  unfolding getValue_def filesRestTree_def by (rule getValue_walk_catchAll)

text \<open>
  C2. When \<^verbatim>\<open>/users/:id\<close> is the only pattern registered (for any method \<open>m\<close> and
  any chain \<open>hs\<close>), the lookup of \<^verbatim>\<open>/users/42\<close> returns the chain \<open>hs\<close> and the
  parameter map \<open>{id: "42"}\<close>; and for every path \<^verbatim>\<open>/users/\<close>\<open>v\<close> the lookup
  succeeds exactly when \<open>v\<close> is not empty and holds no separator, and then binds
  \<open>id\<close> to all of \<open>v\<close>: the value is the input up to the next separator or the end.
\<close>

theorem lookup_users_id:
  "lookupAfter [(m, ''/users/:id'', hs)] m ''/users/42'' =
     Inr (Some hs, Some [''id'' \<mapsto> ''42''], ''/users/:id'') \<and>
   lookupAfter [(m, ''/users/:id'', hs)] m (''/users/'' @ v) =
     (if v \<noteq> [] \<and> CHR ''/'' \<notin> set v
      then Inr (Some hs, Some [''id'' \<mapsto> v], ''/users/:id'') else Inr notFound)"
proof -
  have general: "lookupAfter [(m, ''/users/:id'', hs)] m (''/users/'' @ w) =
     (if w \<noteq> [] \<and> CHR ''/'' \<notin> set w
      then Inr (Some hs, Some [''id'' \<mapsto> w], ''/users/:id'') else Inr notFound)" for w
    unfolding lookupAfter_def register_usersId
    by (simp only: sum.case Engine_lookup_def fun_upd_same option.case getValue_usersId)
  from general [of "''42''"] general [of v] show ?thesis by simp
qed

text \<open>
  C3, as stated, fails: with \<^verbatim>\<open>/files/*rest\<close> the only pattern, the lookup of
  \<^verbatim>\<open>/files/a/b/c.txt\<close> does not bind \<open>rest\<close> to \<^verbatim>\<open>a/b/c.txt\<close>.
\<close>

theorem lookup_files_rest_counterexample:
  "boundParam (lookupAfter [(''GET'', ''/files/*rest'', [()])] ''GET'' ''/files/a/b/c.txt'')
     ''rest'' \<noteq> Some ''a/b/c.txt''"
proof -
  have "lookupAfter [(''GET'', ''/files/*rest'', [()])] ''GET'' (''/files'' @ ''/a/b/c.txt'')
      = Inr (Some [()], Some [''rest'' \<mapsto> ''/a/b/c.txt''], ''/files/*rest'')"
    unfolding lookupAfter_def register_filesRest
    by (simp only: sum.case Engine_lookup_def fun_upd_same option.case getValue_filesRest) simp
  then show ?thesis by (simp add: boundParam_def)
qed

text \<open>
  C3, amended. With \<^verbatim>\<open>/files/*rest\<close> the only pattern, the lookup of
  \<^verbatim>\<open>/files/a/b/c.txt\<close> succeeds with the registered chain and binds
  \<open>{rest: "/a/b/c.txt"}\<close>: the value of the catch-all is the rest of the path from the
  separator before the catch-all segment on, that separator included. For every path
  \<^verbatim>\<open>/files\<close>\<open>v\<close> the lookup succeeds exactly when \<open>v\<close> starts with a separator,
  and binds \<open>rest\<close> to all of \<open>v\<close>.
\<close>

theorem lookup_files_rest:
  "lookupAfter [(m, ''/files/*rest'', hs)] m ''/files/a/b/c.txt'' =
     Inr (Some hs, Some [''rest'' \<mapsto> ''/a/b/c.txt''], ''/files/*rest'') \<and>
   lookupAfter [(m, ''/files/*rest'', hs)] m (''/files'' @ v) =
     (if v \<noteq> [] \<and> hd v = CHR ''/''
      then Inr (Some hs, Some [''rest'' \<mapsto> v], ''/files/*rest'') else Inr notFound)"
proof -
  have general: "lookupAfter [(m, ''/files/*rest'', hs)] m (''/files'' @ w) =
     (if w \<noteq> [] \<and> hd w = CHR ''/''
      then Inr (Some hs, Some [''rest'' \<mapsto> w], ''/files/*rest'') else Inr notFound)" for w
    unfolding lookupAfter_def register_filesRest
    by (simp only: sum.case Engine_lookup_def fun_upd_same option.case getValue_filesRest)
  from general [of "''/a/b/c.txt''"] general [of v] show ?thesis by simp
qed

section \<open>Parameters and the empty string\<close>

text \<open>
  C10, as stated, fails: a parameter that is followed by another segment matches the
  empty string. With \<^verbatim>\<open>/users/:id/posts\<close> registered, the lookup of
  \<^verbatim>\<open>/users//posts\<close> succeeds and binds \<open>id\<close> to the empty string.
\<close>

theorem param_empty_counterexample:
  "lookupAfter [(''GET'', ''/users/:id/posts'', [()])] ''GET'' ''/users//posts'' =
   Inr (Some [()], Some [''id'' \<mapsto> []], ''/users/:id/posts'')"
  by (simp add: lookupAfter_def Engine_addRoute_def addRoute_def bumpPriority_def emptyNode_def
      Engine_lookup_def getValue_def Let_def insertChild.simps getValue_walk.simps)

text \<open>All nodes of a tree, the root first, and the nodes strictly below a node.\<close>

fun subnodes :: "'h node \<Rightarrow> 'h node list" where
  "subnodes (Node p ix cs h pr t w fp) = Node p ix cs h pr t w fp # concat (map subnodes cs)"

definition below :: "'h node \<Rightarrow> 'h node list" where
  "below n = concat (map subnodes (children n))"

lemma subnodes_self: "n \<in> set (subnodes n)"
  by (cases n) simp

lemma subnodes_eq: "subnodes n = n # below n"
  by (cases n) (simp add: below_def)

lemma below_child: "c \<in> set (children n) \<Longrightarrow> d \<in> set (subnodes c) \<Longrightarrow> d \<in> set (below n)"
  by (auto simp: below_def)

lemma below_trans: "m \<in> set (below n) \<Longrightarrow> d \<in> set (below m) \<Longrightarrow> d \<in> set (below n)"
proof (induction n arbitrary: m d)
  case (Node p ix cs h pr t w fp)
  from Node.prems(1) obtain c where c: "c \<in> set cs" "m \<in> set (subnodes c)"
    by (auto simp: below_def)
  from c(2) have "m = c \<or> m \<in> set (below c)" by (simp add: subnodes_eq)
  then have "d \<in> set (below c)"
  proof
    assume "m = c" with Node.prems(2) show ?thesis by simp
  next
    assume "m \<in> set (below c)"
    from Node.IH [OF c(1) this Node.prems(2)] show ?thesis .
  qed
  then have "d \<in> set (subnodes c)" by (simp add: subnodes_eq [of c])
  from below_child [of c "Node p ix cs h pr t w fp" d, OF _ this] c(1) show ?case by simp
qed

text \<open>
  Among the nodes \<open>ms\<close> there is a parameter node named \<open>k\<close> with a continuation:
  the node whose chain \<open>h\<close> and full path \<open>fp\<close> the lookup returned lies strictly
  below it.
\<close>

definition emptyOnlyAbove ::
  "'h node list \<Rightarrow> 'h list option \<Rightarrow> string \<Rightarrow> string \<Rightarrow> bool" where
  "emptyOnlyAbove ms h fp k \<longleftrightarrow>
     (\<exists>m\<in>set ms. nType m = param \<and> drop 1 (path m) = k \<and>
        (\<exists>d\<in>set (below m). handlers d = h \<and> fullPath d = fp))"

text \<open>A lookup that returns a parameter map returns the chain and the full path of a
  node of the tree, and a name it has bound to the empty string belongs to a parameter
  node above that node.\<close>

lemma getValue_walk_empty:
  "getValue_walk n pth ps = Inr (h, Some ps', fp) \<Longrightarrow>
   (\<exists>d\<in>set (subnodes n). handlers d = h \<and> fullPath d = fp) \<and>
   (\<forall>k. ps' k = Some [] \<longrightarrow> ps k = Some [] \<or> emptyOnlyAbove (below n) h fp k)"
proof (induction n pth ps rule: getValue_walk.induct)
  case (1 n pth ps)
  let ?pth1 = "drop (length (path n)) pth"
  note res = "1.prems"(1) [unfolded getValue_walk.simps [of n pth ps]]
  show ?case
  proof (cases "length (path n) < length pth \<and> take (length (path n)) pth = path n")
    case False
    with res show ?thesis
      by (auto simp: notFound_def subnodes_self split: if_splits)
  next
    case True
    then have ne: "?pth1 \<noteq> []" by simp
    show ?thesis
    proof (cases "indexByte (hd ?pth1) (indices n)")
      case (Some i)
      with True res have i: "i < length (children n)"
        and rec: "getValue_walk (children n ! i) ?pth1 ps = Inr (h, Some ps', fp)"
        by (auto simp: Let_def split: if_splits)
      let ?c = "children n ! i"
      from i have cin: "?c \<in> set (children n)" by simp
      from "1.IH"(2) [OF _ _ refl Some i rec] True
      have ih: "\<exists>d\<in>set (subnodes ?c). handlers d = h \<and> fullPath d = fp"
        "\<forall>k. ps' k = Some [] \<longrightarrow> ps k = Some [] \<or> emptyOnlyAbove (below ?c) h fp k"
        by simp_all
      have sub: "set (below ?c) \<subseteq> set (below n)"
        using below_child [OF cin] by (auto simp: subnodes_eq)
      from ih(1) cin have a: "\<exists>d\<in>set (subnodes n). handlers d = h \<and> fullPath d = fp"
        using below_child [OF cin] by (auto simp: subnodes_eq [of n])
      from ih(2) sub have "\<forall>k. ps' k = Some [] \<longrightarrow> ps k = Some [] \<or> emptyOnlyAbove (below n) h fp k"
        unfolding emptyOnlyAbove_def by blast
      with a show ?thesis by simp
    next
      case None
      with True res obtain c cs where w: "wildChild n" and cs: "children n = c # cs"
        by (auto simp: Let_def notFound_def split: if_splits list.splits)
      from cs have cin: "c \<in> set (children n)" by simp
      have cb: "c \<in> set (below n)" using below_child [OF cin subnodes_self] .
      show ?thesis
      proof (cases "nType c")
        case static
        with True None w cs res show ?thesis by (simp add: Let_def)
      next
        case catchAll
        with True None w cs res
        have "ps' = ps(drop 2 (path c) \<mapsto> ?pth1)" "h = handlers c" "fp = fullPath c"
          by (auto simp: Let_def split: if_splits)
        with ne cb show ?thesis by (auto simp: subnodes_eq [of n])
      next
        case param
        let ?e = "length (takeWhile (\<lambda>x. x \<noteq> CHR ''/'') ?pth1)"
        let ?ps1 = "ps(drop 1 (path c) \<mapsto> take ?e ?pth1)"
        from True None w cs res param have lp: "\<not> length (path c) < 1"
          by (auto simp: Let_def split: if_splits)
        show ?thesis
        proof (cases "?e < length ?pth1")
          case False
          with True None w cs res param lp
          have "ps' = ?ps1" "h = handlers c" "fp = fullPath c"
            by (auto simp: Let_def split: if_splits)
          moreover from False have "take ?e ?pth1 = ?pth1" by (rule takeWhile_full)
          ultimately show ?thesis using ne cb by (auto simp: subnodes_eq [of n])
        next
          case lt: True
          with True None w cs res param lp obtain c2 cs2 where c2: "children c = c2 # cs2"
            and rec: "getValue_walk c2 (drop ?e ?pth1) ?ps1 = Inr (h, Some ps', fp)"
            by (auto simp: Let_def notFound_def split: if_splits list.splits)
          from "1.IH"(1) [OF _ _ refl None w cs param refl _ refl lt c2 rec] True lp
          have ih: "\<exists>d\<in>set (subnodes c2). handlers d = h \<and> fullPath d = fp"
            "\<forall>k. ps' k = Some [] \<longrightarrow> ?ps1 k = Some [] \<or> emptyOnlyAbove (below c2) h fp k"
            by simp_all
          from c2 have c2in: "c2 \<in> set (children c)" by simp
          from ih(1) obtain d where d: "d \<in> set (subnodes c2)" "handlers d = h" "fullPath d = fp"
            by auto
          from below_child [OF c2in d(1)] have dc: "d \<in> set (below c)" .
          from below_trans [OF cb dc] have a: "\<exists>d\<in>set (subnodes n). handlers d = h \<and> fullPath d = fp"
            using d by (auto simp: subnodes_eq [of n])
          have c2b: "c2 \<in> set (below n)"
            using below_trans [OF cb below_child [OF c2in subnodes_self]] .
          have sub: "set (below c2) \<subseteq> set (below n)"
            using below_trans [OF c2b] by auto
          have here: "emptyOnlyAbove (below n) h fp (drop 1 (path c))"
            unfolding emptyOnlyAbove_def using cb param dc d by blast
          have "ps k = Some [] \<or> emptyOnlyAbove (below n) h fp k" if k: "ps' k = Some []" for k
          proof -
            from ih(2) k have "?ps1 k = Some [] \<or> emptyOnlyAbove (below c2) h fp k" by simp
            then show ?thesis
            proof
              assume "?ps1 k = Some []"
              with here show ?thesis by (cases "k = drop 1 (path c)") auto
            next
              assume "emptyOnlyAbove (below c2) h fp k"
              with sub show ?thesis unfolding emptyOnlyAbove_def by blast
            qed
          qed
          with a show ?thesis by simp
        qed
      qed
    qed
  qed
qed

text \<open>A parameter name as \<^verbatim>\<open>findWildcard\<close> reads it, and a literal prefix that
  \<^verbatim>\<open>Engine.addRoute\<close> accepts.\<close>

definition plainName :: "string \<Rightarrow> bool" where
  "plainName nm \<longleftrightarrow>
     nm \<noteq> [] \<and> CHR ''/'' \<notin> set nm \<and> CHR '':'' \<notin> set nm \<and> CHR ''*'' \<notin> set nm"

definition plainPrefix :: "string \<Rightarrow> bool" where
  "plainPrefix pre \<longleftrightarrow>
     pre \<noteq> [] \<and> hd pre = CHR ''/'' \<and> CHR '':'' \<notin> set pre \<and> CHR ''*'' \<notin> set pre"

lemma wildcardEnd_name:
  "CHR ''/'' \<notin> set nm \<Longrightarrow> CHR '':'' \<notin> set nm \<Longrightarrow> CHR ''*'' \<notin> set nm \<Longrightarrow>
   wildcardEnd nm b = (nm, b)"
  by (induction nm arbitrary: b) auto

lemma findWildcard_param:
  "CHR '':'' \<notin> set pre \<Longrightarrow> CHR ''*'' \<notin> set pre \<Longrightarrow> wildcardEnd nm True = (nm, True) \<Longrightarrow>
   findWildcard (pre @ CHR '':'' # nm) = Some (CHR '':'' # nm, length pre, True)"
  by (induction pre) auto

lemma insertChild_param_route:
  assumes "plainPrefix pre" "plainName nm"
  shows "insertChild (Node [] [] [] None pr t False fp0) (pre @ CHR '':'' # nm) fp hs =
    Inr (Node pre [] [Node (CHR '':'' # nm) [] [] hs 1 param False fp] None pr t True fp0)"
proof -
  from assms have fw: "findWildcard (pre @ CHR '':'' # nm) = Some (CHR '':'' # nm, length pre, True)"
    by (simp add: findWildcard_param wildcardEnd_name plainPrefix_def plainName_def)
  from assms have "pre \<noteq> []" "nm \<noteq> []" by (simp_all add: plainPrefix_def plainName_def)
  then show ?thesis
    by (subst insertChild.simps) (simp add: fw Let_def)
qed

lemma register_param_route:
  assumes "plainPrefix pre" "plainName nm"
  shows "registerAll Map.empty [(m, pre @ CHR '':'' # nm, hs)] =
    Inr [m \<mapsto> Node pre [] [Node (CHR '':'' # nm) [] [] (Some hs) 1 param False
                             (pre @ CHR '':'' # nm)] None 1 static True []]"
proof -
  from assms(1) obtain pre' where pre: "pre = CHR ''/'' # pre'"
    by (cases pre) (auto simp: plainPrefix_def)
  have "addRoute emptyNode (pre @ CHR '':'' # nm) (Some hs) =
    Inr (Node pre [] [Node (CHR '':'' # nm) [] [] (Some hs) 1 param False
                             (pre @ CHR '':'' # nm)] None 1 static True [])"
    by (simp add: addRoute_def bumpPriority_def emptyNode_def Let_def
        insertChild_param_route [OF assms])
  then show ?thesis
    by (simp add: Engine_addRoute_def pre)
qed

text \<open>
  C10, amended. A parameter that ends its pattern never matches the empty string.
  When the only pattern is a literal prefix followed by one parameter (such as
  \<^verbatim>\<open>/users/:id\<close>), the lookup of the prefix followed by \<open>v\<close> succeeds exactly
  when \<open>v\<close> is one non-empty segment, so the lookup of \<^verbatim>\<open>/users/\<close> is not-found.
  And in every tree, whenever a lookup returns a parameter map, a name bound to the
  empty string is the name of a parameter node that has a continuation leading to the
  matched node: only a parameter followed by further segments of the matched pattern
  can bind the empty string, every other bound value is non-empty.
\<close>

theorem param_value_nonempty:
  "(plainPrefix pre \<and> plainName nm \<longrightarrow>
      lookupAfter [(m, pre @ CHR '':'' # nm, hs)] m (pre @ v) =
        (if v \<noteq> [] \<and> CHR ''/'' \<notin> set v
         then Inr (Some hs, Some [nm \<mapsto> v], pre @ CHR '':'' # nm) else Inr notFound)) \<and>
   (getValue n pth = Inr (h, Some ps, fp) \<longrightarrow> ps k = Some v' \<longrightarrow>
      v' \<noteq> [] \<or> emptyOnlyAbove (subnodes n) h fp k)"
proof -
  have "lookupAfter [(m, pre @ CHR '':'' # nm, hs)] m (pre @ v) =
        (if v \<noteq> [] \<and> CHR ''/'' \<notin> set v
         then Inr (Some hs, Some [nm \<mapsto> v], pre @ CHR '':'' # nm) else Inr notFound)"
    if "plainPrefix pre" "plainName nm"
    unfolding lookupAfter_def register_param_route [OF that]
    by (simp only: sum.case Engine_lookup_def fun_upd_same option.case getValue_def
        getValue_walk_param_leaf)
  moreover have "v' \<noteq> [] \<or> emptyOnlyAbove (subnodes n) h fp k"
    if g: "getValue n pth = Inr (h, Some ps, fp)" and k: "ps k = Some v'"
  proof (cases "v' = []")
    case True
    from getValue_walk_empty [OF g [unfolded getValue_def]] k True
    have "emptyOnlyAbove (below n) h fp k" by simp
    then show ?thesis by (auto simp: emptyOnlyAbove_def subnodes_eq [of n])
  qed simp
  ultimately show ?thesis by blast
qed

text \<open>The tree of the single pattern \<^verbatim>\<open>/users/:id/posts\<close>.\<close>

definition usersIdPostsTree :: "'h list \<Rightarrow> 'h node" where
  "usersIdPostsTree hs =
     Node ''/users/'' []
       [Node '':id'' [] [Node ''/posts'' [] [] (Some hs) 1 static False ''/users/:id/posts'']
          None 1 param False ''/users/:id/posts'']
       None 1 static True []"

lemma register_usersIdPosts:
  "registerAll Map.empty [(m, ''/users/:id/posts'', hs)] = Inr [m \<mapsto> usersIdPostsTree hs]"
  by (simp add: Engine_addRoute_def addRoute_def bumpPriority_def emptyNode_def
      usersIdPostsTree_def Let_def insertChild.simps)

theorem param_value_nonempty_witness:
  "plainPrefix ''/users/'' \<and> plainName ''id'' \<and>
   lookupAfter [(''GET'', ''/users/:id'', [()])] ''GET'' ''/users/'' = Inr notFound \<and>
   getValue (usersIdPostsTree [()]) ''/users//posts'' =
     Inr (Some [()], Some [''id'' \<mapsto> []], ''/users/:id/posts'') \<and>
   [''id'' \<mapsto> []] ''id'' = Some [] \<and>
   emptyOnlyAbove (subnodes (usersIdPostsTree [()])) (Some [()]) ''/users/:id/posts'' ''id''"
proof -
  have a: "plainPrefix ''/users/''" "plainName ''id''"
    by (simp_all add: plainPrefix_def plainName_def)
  have g: "getValue (usersIdPostsTree [()]) ''/users//posts'' =
     Inr (Some [()], Some [''id'' \<mapsto> []], ''/users/:id/posts'')"
    by (simp add: usersIdPostsTree_def getValue_def getValue_walk.simps Let_def)
  from param_value_nonempty [of "''/users/''" "''id''" "''GET''" "[()]" "[]"
      "usersIdPostsTree [()]" "''/users//posts''" "Some [()]" "[''id'' \<mapsto> []]"
      "''/users/:id/posts''" "''id''" "[]"] a g
  show ?thesis by simp
qed

section \<open>Joining paths\<close>

text \<open>
  C9 at a base that ends with a separator and a relative path that starts with one:
  the joined path has two separators between the segments.
\<close>

theorem joinPaths_double_separator:
  "joinPaths ''/api/'' ''/users'' = ''/api//users''"
  by (simp add: joinPaths_def)

section \<open>Chain execution: abort and the cursor\<close>

subsection \<open>The 8-bit cursor\<close>

lemma sint8_range: "- 128 \<le> sint (x :: 8 word) \<and> sint x < 128"
  using sint_ge [of x] sint_lt [of x] by simp

lemma sint8_succ: "sint (x :: 8 word) < 127 \<Longrightarrow> sint (x + 1) = sint x + 1"
  using sint8_range [of x]
  by (simp add: sint_word_add signed_take_bit_int_eq_self)

lemma sint8_wrap: "\<not> sint (x :: 8 word) < 127 \<Longrightarrow> sint (x + 1) = - 128"
proof -
  assume "\<not> sint x < 127"
  with sint8_range [of x] have "sint x = 127" by simp
  then show ?thesis by (simp add: sint_word_add)
qed

lemma sint8_of_nat: "L \<le> 127 \<Longrightarrow> sint (of_nat L :: 8 word) = int L"
proof -
  assume "L \<le> 127"
  have "sint (of_nat L :: 8 word) = sint (word_of_int (int L) :: 8 word)" by simp
  also have "\<dots> = signed_take_bit 7 (int L)" by (simp only: sint_sbintrunc') simp
  also have "\<dots> = int L" using \<open>L \<le> 127\<close> by (simp add: signed_take_bit_int_eq_self)
  finally show ?thesis .
qed

fun isAbort :: "action \<Rightarrow> bool" where
  "isAbort CallAbort = True"
| "isAbort (CallAbortWithStatus code) = True"
| "isAbort (CallAbortWithStatusJSON code payload) = True"
| "isAbort _ = False"

lemma perform_frame:
  assumes "store c \<noteq> None"
  shows "\<exists>c'. perform a c = Returned c' \<and> handlers_ctx c' = handlers_ctx c \<and>
           index c' = index c \<and> store c' \<noteq> None \<and>
           (aborted c' \<longleftrightarrow> aborted c \<or> isAbort a)"
  using assms
  by (cases a) (auto simp: Abort_def Status_def JSON_def Set_ctx_def)

lemma Next_loop_aborted:
  "aborted c \<Longrightarrow> Next_loop (Suc n) (c, tr) = Some (Returned (c, tr))"
  by simp

lemma Next_aborted:
  "aborted c \<Longrightarrow> Next (Suc (Suc n)) (c, tr) = Some (Returned (c\<lparr>index := index c + 1\<rparr>, tr))"
  by simp

lemma invoke_aborted:
  "aborted c \<Longrightarrow> store c \<noteq> None \<Longrightarrow> length as + 2 \<le> n \<Longrightarrow>
   \<exists>c'. invoke n as (c, tr) = Some (Returned (c', tr)) \<and> aborted c' \<and> store c' \<noteq> None \<and>
        handlers_ctx c' = handlers_ctx c"
proof (induction as arbitrary: c n)
  case Nil
  then obtain k where "n = Suc k" by (cases n) auto
  with Nil show ?case by simp
next
  case (Cons a as)
  then obtain k where n: "n = Suc (Suc (Suc k))" and k: "length as \<le> k"
    by (cases n; simp) (metis Suc_le_D Suc_le_mono add_2_eq_Suc')
  show ?case
  proof (cases "a = CallNext")
    case True
    let ?c1 = "c\<lparr>index := index c + 1\<rparr>"
    from Cons.prems have "aborted ?c1" "store ?c1 \<noteq> None" by simp_all
    from Cons.IH [OF this, of "Suc (Suc k)" ] k
    obtain c' where "invoke (Suc (Suc k)) as (?c1, tr) = Some (Returned (c', tr))"
      "aborted c'" "store c' \<noteq> None" "handlers_ctx c' = handlers_ctx ?c1" by auto
    with True n Cons.prems show ?thesis by simp
  next
    case False
    from perform_frame [OF Cons.prems(2), of a] obtain c1 where
      p: "perform a c = Returned c1" "handlers_ctx c1 = handlers_ctx c" "store c1 \<noteq> None"
         "aborted c1" using Cons.prems(1) by auto
    from Cons.IH [OF p(4) p(3), of "Suc (Suc k)"] k
    obtain c' where "invoke (Suc (Suc k)) as (c1, tr) = Some (Returned (c', tr))"
      "aborted c'" "store c' \<noteq> None" "handlers_ctx c' = handlers_ctx c1" by auto
    with False n p show ?thesis by simp
  qed
qed

lemma invoke_no_Next:
  "CallNext \<notin> set as \<Longrightarrow> store c \<noteq> None \<Longrightarrow> length as < n \<Longrightarrow>
   \<exists>c'. invoke n as (c, tr) = Some (Returned (c', tr)) \<and> handlers_ctx c' = handlers_ctx c \<and>
        index c' = index c \<and> store c' \<noteq> None \<and>
        (aborted c' \<longleftrightarrow> aborted c \<or> (\<exists>a\<in>set as. isAbort a))"
proof (induction as arbitrary: c n)
  case Nil
  then obtain k where "n = Suc k" by (cases n) auto
  with Nil show ?case by simp
next
  case (Cons a as)
  then obtain k where n: "n = Suc k" and k: "length as < k" by (cases n) auto
  from Cons.prems have na: "a \<noteq> CallNext" and nas: "CallNext \<notin> set as" by auto
  from perform_frame [OF Cons.prems(2), of a] obtain c1 where
    p: "perform a c = Returned c1" "handlers_ctx c1 = handlers_ctx c" "store c1 \<noteq> None"
       "index c1 = index c" "aborted c1 \<longleftrightarrow> aborted c \<or> isAbort a" by auto
  from Cons.IH [OF nas p(3) k] obtain c' where
    "invoke k as (c1, tr) = Some (Returned (c', tr))" "handlers_ctx c' = handlers_ctx c1"
    "index c' = index c1" "store c' \<noteq> None"
    "aborted c' \<longleftrightarrow> aborted c1 \<or> (\<exists>a\<in>set as. isAbort a)" by auto
  with na n p show ?case by auto
qed

lemma second_aborts:
  assumes hs: "handlers_ctx c = [A, B, C]" and ix: "index c = 1" and na: "\<not> aborted c"
    and st: "store c \<noteq> None" and nn: "CallNext \<notin> set B" and ab: "\<exists>a\<in>set B. isAbort a"
    and n: "length B + 3 \<le> n"
  shows "\<exists>c'. Next_loop n (c, tr) = Some (Returned (c', tr @ [1])) \<and> aborted c' \<and>
           store c' \<noteq> None \<and> handlers_ctx c' = [A, B, C]"
proof -
  define k where "k = n - 2"
  from n have k: "n = Suc (Suc k)" and lk: "length B < Suc k"
    by (simp_all add: k_def)
  from invoke_no_Next [OF nn st lk, of "tr @ [1]"] ab na obtain c2 where
    c2: "invoke (Suc k) B (c, tr @ [1]) = Some (Returned (c2, tr @ [1]))"
      "handlers_ctx c2 = handlers_ctx c" "store c2 \<noteq> None" "aborted c2" by auto
  from hs ix na k c2 show ?thesis by simp
qed

lemma first_body:
  assumes hs: "handlers_ctx c = [A, B, C]" and ix: "index c = 0" and na: "\<not> aborted c"
    and st: "store c \<noteq> None" and nab: "\<forall>a\<in>set as. \<not> isAbort a"
    and nn: "CallNext \<notin> set B" and ab: "\<exists>a\<in>set B. isAbort a"
    and n: "length as + length B + 6 \<le> n"
  shows "\<exists>c' tr'. invoke n as (c, [0]) = Some (Returned (c', tr')) \<and> store c' \<noteq> None \<and>
           handlers_ctx c' = [A, B, C] \<and>
           ((\<not> aborted c' \<and> index c' = 0 \<and> tr' = [0]) \<or> (aborted c' \<and> tr' = [0, 1]))"
  using hs ix na st nab n
proof (induction as arbitrary: c n)
  case Nil
  then obtain k where "n = Suc k" by (cases n) auto
  with Nil show ?case by simp
next
  case (Cons a as)
  define k where "k = n - 2"
  from Cons.prems(6) have k: "n = Suc (Suc k)" and lk: "length as + length B + 6 \<le> Suc k"
    by (simp_all add: k_def)
  show ?case
  proof (cases "a = CallNext")
    case True
    let ?c1 = "c\<lparr>index := index c + 1\<rparr>"
    from Cons.prems have c1: "handlers_ctx ?c1 = [A, B, C]" "index ?c1 = 1" "\<not> aborted ?c1"
      "store ?c1 \<noteq> None" by simp_all
    from lk have "length B + 3 \<le> k" by simp
    from second_aborts [OF c1 nn ab this, of "[0]"] obtain c2 where
      c2: "Next_loop k (?c1, [0]) = Some (Returned (c2, [0, 1]))" "aborted c2"
        "store c2 \<noteq> None" "handlers_ctx c2 = [A, B, C]" by auto
    from lk have "length as + 2 \<le> Suc k" by simp
    from invoke_aborted [OF c2(2,3) this, of "[0, 1]"] obtain c' where
      "invoke (Suc k) as (c2, [0, 1]) = Some (Returned (c', [0, 1]))" "aborted c'"
      "store c' \<noteq> None" "handlers_ctx c' = handlers_ctx c2" by auto
    with True k c2 show ?thesis by simp
  next
    case False
    from perform_frame [OF Cons.prems(4), of a] Cons.prems obtain c1 where
      p: "perform a c = Returned c1" "handlers_ctx c1 = [A, B, C]" "store c1 \<noteq> None"
         "index c1 = 0" "\<not> aborted c1" by auto
    from Cons.prems(5) have "\<forall>a\<in>set as. \<not> isAbort a" by simp
    from Cons.IH [OF p(2) p(4) p(5) p(3) this, of "Suc k"] lk
    obtain c' tr' where "invoke (Suc k) as (c1, [0]) = Some (Returned (c', tr'))"
      "store c' \<noteq> None" "handlers_ctx c' = [A, B, C]"
      "(\<not> aborted c' \<and> index c' = 0 \<and> tr' = [0]) \<or> (aborted c' \<and> tr' = [0, 1])" by auto
    with False k p show ?thesis by simp
  qed
qed

lemma three_handlers:
  assumes hs: "handlers_ctx c = [A, B, C]" and ix: "index c = - 1" and na: "\<not> aborted c"
    and st: "store c \<noteq> None" and nab: "\<forall>a\<in>set A. \<not> isAbort a"
    and nn: "CallNext \<notin> set B" and ab: "\<exists>a\<in>set B. isAbort a"
    and n: "length A + length B + 10 \<le> n"
  shows "\<exists>c'. Next n (c, []) = Some (Returned (c', [0, 1])) \<and> aborted c'"
proof -
  define k where "k = n - 3"
  from n have k: "n = Suc (Suc (Suc k))" and lk: "length A + length B + 7 \<le> k"
    by (simp_all add: k_def)
  let ?c0 = "c\<lparr>index := index c + 1\<rparr>"
  from hs ix na st have c0: "handlers_ctx ?c0 = [A, B, C]" "index ?c0 = 0" "\<not> aborted ?c0"
      "store ?c0 \<noteq> None" by simp_all
  from lk have "length A + length B + 6 \<le> Suc k" by simp
  from first_body [OF c0 nab nn ab this] obtain c1 tr1 where
    c1: "invoke (Suc k) A (?c0, [0]) = Some (Returned (c1, tr1))" "store c1 \<noteq> None"
      "handlers_ctx c1 = [A, B, C]"
      "(\<not> aborted c1 \<and> index c1 = 0 \<and> tr1 = [0]) \<or> (aborted c1 \<and> tr1 = [0, 1])" by auto
  let ?c2 = "c1\<lparr>index := index c1 + 1\<rparr>"
  have "\<exists>c'. Next_loop (Suc k) (?c2, tr1) = Some (Returned (c', [0, 1])) \<and> aborted c'"
  proof (cases "aborted c1")
    case True
    with c1 show ?thesis by auto
  next
    case False
    with c1 have c2: "handlers_ctx ?c2 = [A, B, C]" "index ?c2 = 1" "\<not> aborted ?c2"
      "store ?c2 \<noteq> None" and tr1: "tr1 = [0]" by auto
    from lk have "length B + 3 \<le> Suc k" by simp
    from second_aborts [OF c2 nn ab this, of "[0]"] tr1 show ?thesis
      by (auto simp del: Next_loop.simps)
  qed
  with k c0 c1(1) show ?thesis by simp
qed

fun stateOf :: "'s outcome \<Rightarrow> 's" where
  "stateOf (Returned s) = s"
| "stateOf (Panicked s) = s"

fun returned :: "'s outcome \<Rightarrow> bool" where
  "returned (Returned s) = True"
| "returned (Panicked s) = False"

definition post :: "int \<Rightarrow> int \<Rightarrow> run \<Rightarrow> run outcome \<Rightarrow> bool" where
  "post lo ilo s r \<longleftrightarrow>
     handlers_ctx (fst (stateOf r)) = handlers_ctx (fst s) \<and>
     (aborted (fst s) \<longrightarrow> aborted (fst (stateOf r))) \<and>
     (\<exists>new. snd (stateOf r) = snd s @ new \<and> (aborted (fst s) \<longrightarrow> new = []) \<and>
            (\<forall>j\<in>set new. lo \<le> int j)) \<and>
     sorted_wrt (<) (snd (stateOf r)) \<and>
     (returned r \<longrightarrow> aborted (fst (stateOf r)) \<or>
        ((\<forall>j\<in>set (snd (stateOf r)). int j \<le> sint (index (fst (stateOf r)))) \<and>
         ilo \<le> sint (index (fst (stateOf r)))))"

lemma loop_stop: "Next_loop n (c, tr) = Some r \<Longrightarrow> aborted c \<Longrightarrow> r = Returned (c, tr)"
  by (cases n) (auto split: if_splits)

lemma loop_negative:
  "Next_loop n (c, tr) = Some r \<Longrightarrow> \<not> aborted c \<Longrightarrow> sint (index c) < 0 \<Longrightarrow>
   length (handlers_ctx c) \<le> 127 \<Longrightarrow> r = Panicked (c, tr)"
  by (cases n) (auto simp: sint8_of_nat split: if_splits)

lemma post_stay:
  "sorted_wrt (<) tr \<Longrightarrow> post lo ilo (c, tr) (Panicked (c', tr)) \<longleftrightarrow>
     handlers_ctx c' = handlers_ctx c \<and> (aborted c \<longrightarrow> aborted c')"
  by (auto simp: post_def)

text \<open>Advancing the cursor of a state and running the loop from there.\<close>

lemma advance_loop:
  assumes IH: "\<And>c tr r. length (handlers_ctx c) \<le> 127 \<Longrightarrow> sorted_wrt (<) tr \<Longrightarrow>
      aborted c \<or> (\<forall>j\<in>set tr. int j < sint (index c)) \<Longrightarrow> Next_loop n (c, tr) = Some r \<Longrightarrow>
      post (sint (index c)) (sint (index c)) (c, tr) r"
    and len: "length (handlers_ctx c) \<le> 127" and so: "sorted_wrt (<) tr"
    and ok: "aborted c \<or> (\<forall>j\<in>set tr. int j \<le> sint (index c))"
    and run: "Next_loop n (c\<lparr>index := index c + 1\<rparr>, tr) = Some r"
  shows "post (sint (index c) + 1) (sint (index c) + 1) (c, tr) r"
proof -
  let ?c1 = "c\<lparr>index := index c + 1\<rparr>"
  show ?thesis
  proof (cases "aborted c")
    case True
    with loop_stop [OF run] have "r = Returned (?c1, tr)" by simp
    with True so show ?thesis by (simp add: post_def)
  next
    case na: False
    show ?thesis
    proof (cases "sint (index c) < 127")
      case True
      then have i1: "sint (index ?c1) = sint (index c) + 1" by (simp add: sint8_succ)
      with na ok have "aborted ?c1 \<or> (\<forall>j\<in>set tr. int j < sint (index ?c1))" by auto
      from IH [OF _ so this run] len i1
      show ?thesis by (simp add: post_def)
    next
      case False
      then have "sint (index ?c1) < 0" by (simp add: sint8_wrap)
      from loop_negative [OF run _ this] na len have "r = Panicked (?c1, tr)" by simp
      with so show ?thesis by (simp add: post_def)
    qed
  qed
qed

lemma perform_keeps:
  "perform a c = Returned c' \<or> perform a c = Panicked c' \<Longrightarrow>
   handlers_ctx c' = handlers_ctx c \<and> index c' = index c \<and> (aborted c \<longrightarrow> aborted c')"
  by (cases a) (auto simp: Abort_def Status_def JSON_def Set_ctx_def split: option.splits)

lemma post_trans:
  assumes p1: "post lo1 ilo1 (c, tr) (Returned (c1, tr1))"
    and p2: "post lo2 ilo2 (c1, tr1) r"
    and lo: "\<not> aborted c1 \<Longrightarrow> lo \<le> lo2" "lo \<le> lo1"
    and ilo: "\<not> aborted c1 \<Longrightarrow> ilo \<le> ilo2"
  shows "post lo ilo (c, tr) r"
proof -
  from p1 obtain new1 where n1: "tr1 = tr @ new1" "aborted c \<longrightarrow> new1 = []"
    "\<forall>j\<in>set new1. lo1 \<le> int j" and h1: "handlers_ctx c1 = handlers_ctx c"
    "aborted c \<longrightarrow> aborted c1"
    by (auto simp: post_def)
  from p2 obtain new2 where n2: "snd (stateOf r) = tr1 @ new2" "aborted c1 \<longrightarrow> new2 = []"
    "\<forall>j\<in>set new2. lo2 \<le> int j" and h2: "handlers_ctx (fst (stateOf r)) = handlers_ctx c1"
    "aborted c1 \<longrightarrow> aborted (fst (stateOf r))" "sorted_wrt (<) (snd (stateOf r))"
    and fin: "returned r \<longrightarrow> aborted (fst (stateOf r)) \<or>
        ((\<forall>j\<in>set (snd (stateOf r)). int j \<le> sint (index (fst (stateOf r)))) \<and>
         ilo2 \<le> sint (index (fst (stateOf r))))"
    by (auto simp: post_def)
  have a: "snd (stateOf r) = tr @ (new1 @ new2)" using n1 n2 by simp
  have b: "aborted c \<longrightarrow> new1 @ new2 = []" using n1 n2 h1 by simp
  have d: "\<forall>j\<in>set (new1 @ new2). lo \<le> int j"
    using n1(3) n2(2,3) lo by (cases "aborted c1") fastforce+
  have e: "returned r \<longrightarrow> aborted (fst (stateOf r)) \<or>
        ((\<forall>j\<in>set (snd (stateOf r)). int j \<le> sint (index (fst (stateOf r)))) \<and>
         ilo \<le> sint (index (fst (stateOf r))))"
    using fin h2(2) ilo by (cases "aborted c1") auto
  have ex: "\<exists>new. snd (stateOf r) = tr @ new \<and> (aborted c \<longrightarrow> new = []) \<and>
            (\<forall>j\<in>set new. lo \<le> int j)"
    using a b d by (intro exI [of _ "new1 @ new2"]) simp
  show ?thesis unfolding post_def fst_conv snd_conv
    using ex e h1 h2 by simp
qed

lemma post_refl:
  "sorted_wrt (<) tr \<Longrightarrow> aborted c \<or> (\<forall>j\<in>set tr. int j \<le> sint (index c)) \<Longrightarrow>
   ilo \<le> sint (index c) \<Longrightarrow> post lo ilo (c, tr) (Returned (c, tr))"
  by (auto simp: post_def)

lemma chain_invariant:
  "(\<forall>c tr r. length (handlers_ctx c) \<le> 127 \<longrightarrow> sorted_wrt (<) tr \<longrightarrow>
      (aborted c \<or> (\<forall>j\<in>set tr. int j \<le> sint (index c))) \<longrightarrow> Next n (c, tr) = Some r \<longrightarrow>
      post (sint (index c) + 1) (sint (index c) + 1) (c, tr) r) \<and>
   (\<forall>c tr r. length (handlers_ctx c) \<le> 127 \<longrightarrow> sorted_wrt (<) tr \<longrightarrow>
      (aborted c \<or> (\<forall>j\<in>set tr. int j < sint (index c))) \<longrightarrow> Next_loop n (c, tr) = Some r \<longrightarrow>
      post (sint (index c)) (sint (index c)) (c, tr) r) \<and>
   (\<forall>c tr r as. length (handlers_ctx c) \<le> 127 \<longrightarrow> sorted_wrt (<) tr \<longrightarrow>
      (aborted c \<or> (\<forall>j\<in>set tr. int j \<le> sint (index c))) \<longrightarrow> invoke n as (c, tr) = Some r \<longrightarrow>
      post (sint (index c) + 1) (sint (index c)) (c, tr) r)"
proof (induction n)
  case 0
  show ?case by simp
next
  case (Suc n)
  then have IHn: "\<And>c tr r. length (handlers_ctx c) \<le> 127 \<Longrightarrow> sorted_wrt (<) tr \<Longrightarrow>
      aborted c \<or> (\<forall>j\<in>set tr. int j \<le> sint (index c)) \<Longrightarrow> Next n (c, tr) = Some r \<Longrightarrow>
      post (sint (index c) + 1) (sint (index c) + 1) (c, tr) r"
    and IHl: "\<And>c tr r. length (handlers_ctx c) \<le> 127 \<Longrightarrow> sorted_wrt (<) tr \<Longrightarrow>
      aborted c \<or> (\<forall>j\<in>set tr. int j < sint (index c)) \<Longrightarrow> Next_loop n (c, tr) = Some r \<Longrightarrow>
      post (sint (index c)) (sint (index c)) (c, tr) r"
    and IHi: "\<And>c tr r as. length (handlers_ctx c) \<le> 127 \<Longrightarrow> sorted_wrt (<) tr \<Longrightarrow>
      aborted c \<or> (\<forall>j\<in>set tr. int j \<le> sint (index c)) \<Longrightarrow> invoke n as (c, tr) = Some r \<Longrightarrow>
      post (sint (index c) + 1) (sint (index c)) (c, tr) r"
    by blast+
  have N: "post (sint (index c) + 1) (sint (index c) + 1) (c, tr) r"
    if "length (handlers_ctx c) \<le> 127" "sorted_wrt (<) tr"
      "aborted c \<or> (\<forall>j\<in>set tr. int j \<le> sint (index c))" "Next (Suc n) (c, tr) = Some r"
    for c tr r
    using advance_loop [OF IHl that(1,2,3)] that(4) by simp
  have L: "post (sint (index c)) (sint (index c)) (c, tr) r"
    if len: "length (handlers_ctx c) \<le> 127" and so: "sorted_wrt (<) tr"
      and ok: "aborted c \<or> (\<forall>j\<in>set tr. int j < sint (index c))"
      and run: "Next_loop (Suc n) (c, tr) = Some r"
    for c tr r
  proof -
    let ?i = "sint (index c)"
    have ok': "aborted c \<or> (\<forall>j\<in>set tr. int j \<le> ?i)" using ok by auto
    show ?thesis
    proof (cases "?i < sint (of_nat (length (handlers_ctx c)) :: 8 word) \<and> \<not> aborted c \<and>
        \<not> (?i < 0 \<or> int (length (handlers_ctx c)) \<le> ?i)")
      case False
      with run have "r = Returned (c, tr) \<or> r = Panicked (c, tr)"
        by (auto split: if_splits)
      with so ok' show ?thesis by (auto simp: post_def)
    next
      case True
      let ?tr1 = "tr @ [nat ?i]"
      from True ok have so1: "sorted_wrt (<) ?tr1"
        using so by (auto simp: sorted_wrt_append)
      from True have ok1: "aborted c \<or> (\<forall>j\<in>set ?tr1. int j \<le> ?i)"
        using ok by auto
      have step: "post ?i ?i (c, tr) (Returned (c, ?tr1))"
        using so1 ok1 True by (auto simp: post_def)
      from True run obtain r1 where r1: "invoke n (handlers_ctx c ! nat ?i) (c, ?tr1) = Some r1"
        by (cases "invoke n (handlers_ctx c ! nat ?i) (c, ?tr1)") auto
      from IHi [OF len so1 ok1 r1] have p1: "post (?i + 1) ?i (c, ?tr1) r1" .
      show ?thesis
      proof (cases r1)
        case (Panicked s)
        with True run r1 have "r = r1" by simp
        with post_trans [OF step p1, of ?i ?i] show ?thesis by simp
      next
        case (Returned s)
        obtain c1 tr1 where s: "s = (c1, tr1)" by (cases s)
        with Returned True run r1
        have run2: "Next_loop n (c1\<lparr>index := index c1 + 1\<rparr>, tr1) = Some r" by simp
        from p1 Returned s have p1': "post (?i + 1) ?i (c, ?tr1) (Returned (c1, tr1))" by simp
        then have c1: "length (handlers_ctx c1) \<le> 127" "sorted_wrt (<) tr1"
          "aborted c1 \<or> (\<forall>j\<in>set tr1. int j \<le> sint (index c1))"
          and i1: "\<not> aborted c1 \<Longrightarrow> ?i \<le> sint (index c1)"
          using len by (auto simp: post_def)
        from advance_loop [OF IHl c1 run2]
        have p2: "post (sint (index c1) + 1) (sint (index c1) + 1) (c1, tr1) r" .
        have "post ?i ?i (c, ?tr1) r"
          by (rule post_trans [OF p1' p2]) (use i1 in auto)
        with post_trans [OF step this, of ?i ?i] show ?thesis by simp
      qed
    qed
  qed
  have I: "post (sint (index c) + 1) (sint (index c)) (c, tr) r"
    if len: "length (handlers_ctx c) \<le> 127" and so: "sorted_wrt (<) tr"
      and ok: "aborted c \<or> (\<forall>j\<in>set tr. int j \<le> sint (index c))"
      and run: "invoke (Suc n) as (c, tr) = Some r"
    for c tr r as
  proof (cases as)
    case Nil
    with run have "r = Returned (c, tr)" by simp
    with so ok show ?thesis by (simp add: post_refl)
  next
    case (Cons a as')
    let ?i = "sint (index c)"
    show ?thesis
    proof (cases "a = CallNext")
      case True
      with Cons run obtain r1 where r1: "Next n (c, tr) = Some r1"
        by (cases "Next n (c, tr)") auto
      from IHn [OF len so ok r1] have p1: "post (?i + 1) (?i + 1) (c, tr) r1" .
      show ?thesis
      proof (cases r1)
        case (Panicked s)
        with True Cons run r1 have "r = r1" by simp
        with p1 show ?thesis by (auto simp: post_def)
      next
        case (Returned s)
        obtain c1 tr1 where s: "s = (c1, tr1)" by (cases s)
        with Returned True Cons run r1 have run2: "invoke n as' (c1, tr1) = Some r" by simp
        from p1 Returned s have p1': "post (?i + 1) (?i + 1) (c, tr) (Returned (c1, tr1))" by simp
        then have c1: "length (handlers_ctx c1) \<le> 127" "sorted_wrt (<) tr1"
          "aborted c1 \<or> (\<forall>j\<in>set tr1. int j \<le> sint (index c1))"
          and i1: "\<not> aborted c1 \<Longrightarrow> ?i + 1 \<le> sint (index c1)"
          using len by (auto simp: post_def)
        from IHi [OF c1 run2]
        have p2: "post (sint (index c1) + 1) (sint (index c1)) (c1, tr1) r" .
        show ?thesis by (rule post_trans [OF p1' p2]) (use i1 in auto)
      qed
    next
      case False
      show ?thesis
      proof (cases "perform a c")
        case (Panicked c1)
        with False Cons run have r: "r = Panicked (c1, tr)" by simp
        from perform_keeps [of a c c1] Panicked
        have "handlers_ctx c1 = handlers_ctx c" "aborted c \<longrightarrow> aborted c1" by auto
        with r so show ?thesis by (simp add: post_def)
      next
        case (Returned c1)
        with False Cons run have run2: "invoke n as' (c1, tr) = Some r" by simp
        from perform_keeps [of a c c1] Returned
        have k: "handlers_ctx c1 = handlers_ctx c" "index c1 = index c" "aborted c \<longrightarrow> aborted c1"
          by auto
        with ok have ok1: "aborted c1 \<or> (\<forall>j\<in>set tr. int j \<le> sint (index c1))" by auto
        from k len have "length (handlers_ctx c1) \<le> 127" by simp
        from IHi [OF this so ok1 run2] k
        show ?thesis by (auto simp: post_def)
      qed
    qed
  qed
  from N L I show ?case by blast
qed

lemma fuel_mono_all:
  "(\<forall>s r m. Next n s = Some r \<longrightarrow> n \<le> m \<longrightarrow> Next m s = Some r) \<and>
   (\<forall>s r m. Next_loop n s = Some r \<longrightarrow> n \<le> m \<longrightarrow> Next_loop m s = Some r) \<and>
   (\<forall>s r m as. invoke n as s = Some r \<longrightarrow> n \<le> m \<longrightarrow> invoke m as s = Some r)"
proof (induction n)
  case 0
  show ?case by simp
next
  case (Suc n)
  then have IHn: "\<And>s r m. Next n s = Some r \<Longrightarrow> n \<le> m \<Longrightarrow> Next m s = Some r"
    and IHl: "\<And>s r m. Next_loop n s = Some r \<Longrightarrow> n \<le> m \<Longrightarrow> Next_loop m s = Some r"
    and IHi: "\<And>s r m as. invoke n as s = Some r \<Longrightarrow> n \<le> m \<Longrightarrow> invoke m as s = Some r"
    by blast+
  have N: "Next m s = Some r" if "Next (Suc n) s = Some r" "Suc n \<le> m" for s r m
  proof -
    obtain c tr where s: "s = (c, tr)" by (cases s)
    from that(2) obtain m' where m: "m = Suc m'" "n \<le> m'" by (cases m) auto
    from that(1) s have "Next_loop n (c\<lparr>index := index c + 1\<rparr>, tr) = Some r" by simp
    from IHl [OF this m(2)] s m show ?thesis by simp
  qed
  have L: "Next_loop m s = Some r" if run: "Next_loop (Suc n) s = Some r" and le: "Suc n \<le> m"
    for s r m
  proof -
    obtain c tr where s: "s = (c, tr)" by (cases s)
    from le obtain m' where m: "m = Suc m'" "n \<le> m'" by (cases m) auto
    let ?i = "nat (sint (index c))"
    show ?thesis
    proof (cases "sint (index c) < sint (of_nat (length (handlers_ctx c)) :: 8 word) \<and> \<not> aborted c \<and>
        \<not> (sint (index c) < 0 \<or> int (length (handlers_ctx c)) \<le> sint (index c))")
      case False
      with run s m show ?thesis by (auto simp del: invoke.simps split: if_splits)
    next
      case True
      with run s obtain r1 where r1: "invoke n (handlers_ctx c ! ?i) (c, tr @ [?i]) = Some r1"
        by (cases "invoke n (handlers_ctx c ! ?i) (c, tr @ [?i])") auto
      from IHi [OF r1 m(2)] have r1': "invoke m' (handlers_ctx c ! ?i) (c, tr @ [?i]) = Some r1" .
      show ?thesis
      proof (cases r1)
        case (Panicked s1)
        with True run s m r1 r1' show ?thesis by auto
      next
        case (Returned s1)
        obtain c1 tr1 where s1: "s1 = (c1, tr1)" by (cases s1)
        with Returned True run s r1
        have "Next_loop n (c1\<lparr>index := index c1 + 1\<rparr>, tr1) = Some r" by simp
        from IHl [OF this m(2)] Returned s1 True s m r1' show ?thesis by simp
      qed
    qed
  qed
  have I: "invoke m as s = Some r" if run: "invoke (Suc n) as s = Some r" and le: "Suc n \<le> m"
    for s r m as
  proof -
    obtain c tr where s: "s = (c, tr)" by (cases s)
    from le obtain m' where m: "m = Suc m'" "n \<le> m'" by (cases m) auto
    show ?thesis
    proof (cases as)
      case Nil
      with run s m show ?thesis by simp
    next
      case (Cons a as')
      show ?thesis
      proof (cases "a = CallNext")
        case True
        with run s Cons obtain r1 where r1: "Next n (c, tr) = Some r1"
          by (cases "Next n (c, tr)") auto
        from IHn [OF r1 m(2)] have r1': "Next m' (c, tr) = Some r1" .
        show ?thesis
        proof (cases r1)
          case (Panicked s1)
          with True run s m Cons r1 r1' show ?thesis by auto
        next
          case (Returned s1)
          with True run s Cons r1 have "invoke n as' s1 = Some r" by simp
          from IHi [OF this m(2)] Returned True s m Cons r1' show ?thesis by simp
        qed
      next
        case False
        show ?thesis
        proof (cases "perform a c")
          case (Panicked c1)
          with False run s m Cons show ?thesis by simp
        next
          case (Returned c1)
          with False run s Cons have "invoke n as' (c1, tr) = Some r" by simp
          from IHi [OF this m(2)] Returned False s m Cons show ?thesis by simp
        qed
      qed
    qed
  qed
  from N L I show ?case by blast
qed

lemma Next_loop_mono: "Next_loop n s = Some r \<Longrightarrow> n \<le> m \<Longrightarrow> Next_loop m s = Some r"
  using fuel_mono_all [of n] by blast

lemma Next_mono: "Next n s = Some r \<Longrightarrow> n \<le> m \<Longrightarrow> Next m s = Some r"
  using fuel_mono_all [of n] by blast

lemma invoke_mono: "invoke n as s = Some r \<Longrightarrow> n \<le> m \<Longrightarrow> invoke m as s = Some r"
  using fuel_mono_all [of n] by blast

lemma Next_post:
  "length (handlers_ctx c) \<le> 127 \<Longrightarrow> sorted_wrt (<) tr \<Longrightarrow>
   aborted c \<or> (\<forall>j\<in>set tr. int j \<le> sint (index c)) \<Longrightarrow> Next n (c, tr) = Some r \<Longrightarrow>
   post (sint (index c) + 1) (sint (index c) + 1) (c, tr) r"
  using chain_invariant [of n] by blast

lemma Next_loop_post:
  "length (handlers_ctx c) \<le> 127 \<Longrightarrow> sorted_wrt (<) tr \<Longrightarrow>
   aborted c \<or> (\<forall>j\<in>set tr. int j < sint (index c)) \<Longrightarrow> Next_loop n (c, tr) = Some r \<Longrightarrow>
   post (sint (index c)) (sint (index c)) (c, tr) r"
  using chain_invariant [of n] by blast

lemma invoke_post:
  "length (handlers_ctx c) \<le> 127 \<Longrightarrow> sorted_wrt (<) tr \<Longrightarrow>
   aborted c \<or> (\<forall>j\<in>set tr. int j \<le> sint (index c)) \<Longrightarrow> invoke n as (c, tr) = Some r \<Longrightarrow>
   post (sint (index c) + 1) (sint (index c)) (c, tr) r"
  using chain_invariant [of n] by blast

lemma advance_total:
  assumes T: "\<And>c tr. length (handlers_ctx c) \<le> 127 \<Longrightarrow> sorted_wrt (<) tr \<Longrightarrow>
      aborted c \<or> (\<forall>j\<in>set tr. int j < sint (index c)) \<Longrightarrow>
      aborted c \<or> int (length (handlers_ctx c)) - sint (index c) \<le> int k \<Longrightarrow>
      \<exists>n r. Next_loop n (c, tr) = Some r"
    and len: "length (handlers_ctx c) \<le> 127" and so: "sorted_wrt (<) tr"
    and ok: "aborted c \<or> (\<forall>j\<in>set tr. int j \<le> sint (index c))"
    and bound: "aborted c \<or> int (length (handlers_ctx c)) - (sint (index c) + 1) \<le> int k"
  shows "\<exists>n r. Next_loop n (c\<lparr>index := index c + 1\<rparr>, tr) = Some r"
proof -
  let ?c1 = "c\<lparr>index := index c + 1\<rparr>"
  show ?thesis
  proof (cases "aborted c")
    case True
    then have "Next_loop (Suc 0) (?c1, tr) = Some (Returned (?c1, tr))" by simp
    then show ?thesis by blast
  next
    case na: False
    show ?thesis
    proof (cases "sint (index c) < 127")
      case True
      then have i1: "sint (index ?c1) = sint (index c) + 1" by (simp add: sint8_succ)
      with na ok have ok1: "aborted ?c1 \<or> (\<forall>j\<in>set tr. int j < sint (index ?c1))" by auto
      from na bound i1
      have "aborted ?c1 \<or> int (length (handlers_ctx ?c1)) - sint (index ?c1) \<le> int k" by simp
      from T [OF _ so ok1 this] len show ?thesis by simp
    next
      case False
      then have "sint (index ?c1) = - 128" by (simp add: sint8_wrap)
      with na len have "Next_loop (Suc 0) (?c1, tr) = Some (Panicked (?c1, tr))"
        by (simp add: sint8_of_nat)
      then show ?thesis by blast
    qed
  qed
qed

lemma invoke_total_aux:
  assumes T: "\<And>c tr. length (handlers_ctx c) \<le> 127 \<Longrightarrow> sorted_wrt (<) tr \<Longrightarrow>
      aborted c \<or> (\<forall>j\<in>set tr. int j < sint (index c)) \<Longrightarrow>
      aborted c \<or> int (length (handlers_ctx c)) - sint (index c) \<le> int k \<Longrightarrow>
      \<exists>n r. Next_loop n (c, tr) = Some r"
  shows "length (handlers_ctx c) \<le> 127 \<Longrightarrow> sorted_wrt (<) tr \<Longrightarrow>
    aborted c \<or> (\<forall>j\<in>set tr. int j \<le> sint (index c)) \<Longrightarrow>
    aborted c \<or> int (length (handlers_ctx c)) - (sint (index c) + 1) \<le> int k \<Longrightarrow>
    \<exists>n r. invoke n as (c, tr) = Some r"
proof (induction as arbitrary: c tr)
  case Nil
  have "invoke (Suc 0) [] (c, tr) = Some (Returned (c, tr))" by simp
  then show ?case by blast
next
  case (Cons a as)
  show ?case
  proof (cases "a = CallNext")
    case True
    from advance_total [OF T Cons.prems] obtain n1 r1
      where "Next_loop n1 (c\<lparr>index := index c + 1\<rparr>, tr) = Some r1" by blast
    then have r1: "Next (Suc n1) (c, tr) = Some r1" by simp
    show ?thesis
    proof (cases r1)
      case (Panicked s)
      with True r1 have "invoke (Suc (Suc n1)) (a # as) (c, tr) = Some (Panicked s)"
        by (simp del: Next.simps)
      then show ?thesis by blast
    next
      case (Returned s)
      obtain c2 tr2 where s: "s = (c2, tr2)" by (cases s)
      from Next_post [OF Cons.prems(1,2,3) r1] Returned s
      have p: "post (sint (index c) + 1) (sint (index c) + 1) (c, tr) (Returned (c2, tr2))" by simp
      then have c2: "length (handlers_ctx c2) \<le> 127" "sorted_wrt (<) tr2"
        "aborted c2 \<or> (\<forall>j\<in>set tr2. int j \<le> sint (index c2))"
        and h: "handlers_ctx c2 = handlers_ctx c" "aborted c \<longrightarrow> aborted c2"
        and i2: "\<not> aborted c2 \<Longrightarrow> sint (index c) + 1 \<le> sint (index c2)"
        using Cons.prems(1) by (auto simp: post_def)
      have "aborted c2 \<or> int (length (handlers_ctx c2)) - (sint (index c2) + 1) \<le> int k"
        using Cons.prems(4) h i2 by (cases "aborted c2") auto
      from Cons.IH [OF c2 this] obtain n2 r where r: "invoke n2 as (c2, tr2) = Some r" by blast
      let ?N = "max (Suc n1) n2"
      from Next_mono [OF r1, of ?N] have "Next ?N (c, tr) = Some r1" by simp
      moreover from invoke_mono [OF r, of ?N] have "invoke ?N as (c2, tr2) = Some r" by simp
      ultimately have "invoke (Suc ?N) (a # as) (c, tr) = Some r"
        using True Returned s by (simp del: Next.simps)
      then show ?thesis by blast
    qed
  next
    case False
    show ?thesis
    proof (cases "perform a c")
      case (Panicked c1)
      with False have "invoke (Suc 0) (a # as) (c, tr) = Some (Panicked (c1, tr))" by simp
      then show ?thesis by blast
    next
      case (Returned c1)
      from perform_keeps [of a c c1] Returned
      have k: "handlers_ctx c1 = handlers_ctx c" "index c1 = index c" "aborted c \<longrightarrow> aborted c1"
        by auto
      from k Cons.prems have "length (handlers_ctx c1) \<le> 127"
        "aborted c1 \<or> (\<forall>j\<in>set tr. int j \<le> sint (index c1))"
        "aborted c1 \<or> int (length (handlers_ctx c1)) - (sint (index c1) + 1) \<le> int k"
        by auto
      from Cons.IH [OF this(1) Cons.prems(2) this(2,3)] obtain n2 r
        where "invoke n2 as (c1, tr) = Some r" by blast
      with False Returned have "invoke (Suc n2) (a # as) (c, tr) = Some r" by simp
      then show ?thesis by blast
    qed
  qed
qed

lemma Next_loop_total_aux:
  "length (handlers_ctx c) \<le> 127 \<Longrightarrow> sorted_wrt (<) tr \<Longrightarrow>
   aborted c \<or> (\<forall>j\<in>set tr. int j < sint (index c)) \<Longrightarrow>
   aborted c \<or> int (length (handlers_ctx c)) - sint (index c) \<le> int k \<Longrightarrow>
   \<exists>n r. Next_loop n (c, tr) = Some r"
proof (induction k arbitrary: c tr)
  case 0
  then have "Next_loop (Suc 0) (c, tr) = Some (Returned (c, tr))"
    by (auto simp: sint8_of_nat)
  then show ?case by blast
next
  case (Suc k)
  let ?i = "sint (index c)"
  show ?case
  proof (cases "?i < sint (of_nat (length (handlers_ctx c)) :: 8 word) \<and> \<not> aborted c \<and>
        \<not> (?i < 0 \<or> int (length (handlers_ctx c)) \<le> ?i)")
    case False
    then have "Next_loop (Suc 0) (c, tr) = Some (Returned (c, tr)) \<or>
      Next_loop (Suc 0) (c, tr) = Some (Panicked (c, tr))" by auto
    then show ?thesis by blast
  next
    case True
    let ?tr1 = "tr @ [nat ?i]"
    from True Suc.prems have so1: "sorted_wrt (<) ?tr1" by (auto simp: sorted_wrt_append)
    from True Suc.prems have ok1: "aborted c \<or> (\<forall>j\<in>set ?tr1. int j \<le> ?i)" by auto
    from True Suc.prems(4)
    have b1: "aborted c \<or> int (length (handlers_ctx c)) - (?i + 1) \<le> int k" by auto
    from invoke_total_aux [OF Suc.IH Suc.prems(1) so1 ok1 b1] obtain n1 r1
      where r1: "invoke n1 (handlers_ctx c ! nat ?i) (c, ?tr1) = Some r1" by blast
    show ?thesis
    proof (cases r1)
      case (Panicked s)
      with True r1 have "Next_loop (Suc n1) (c, tr) = Some (Panicked s)" by simp
      then show ?thesis by blast
    next
      case (Returned s)
      obtain c2 tr2 where s: "s = (c2, tr2)" by (cases s)
      from invoke_post [OF Suc.prems(1) so1 ok1 r1] Returned s
      have p: "post (?i + 1) ?i (c, ?tr1) (Returned (c2, tr2))" by simp
      then have c2: "length (handlers_ctx c2) \<le> 127" "sorted_wrt (<) tr2"
        "aborted c2 \<or> (\<forall>j\<in>set tr2. int j \<le> sint (index c2))"
        and h: "handlers_ctx c2 = handlers_ctx c"
        and i2: "\<not> aborted c2 \<Longrightarrow> ?i \<le> sint (index c2)"
        using Suc.prems(1) by (auto simp: post_def)
      have "aborted c2 \<or> int (length (handlers_ctx c2)) - (sint (index c2) + 1) \<le> int k"
        using b1 True h i2 by (cases "aborted c2") auto
      from advance_total [OF Suc.IH c2 this] obtain n2 r
        where r: "Next_loop n2 (c2\<lparr>index := index c2 + 1\<rparr>, tr2) = Some r" by blast
      let ?N = "max n1 n2"
      from invoke_mono [OF r1, of ?N]
      have "invoke ?N (handlers_ctx c ! nat ?i) (c, ?tr1) = Some r1" by simp
      moreover from Next_loop_mono [OF r, of ?N]
      have "Next_loop ?N (c2\<lparr>index := index c2 + 1\<rparr>, tr2) = Some r" by simp
      ultimately have "Next_loop (Suc ?N) (c, tr) = Some r"
        using True Returned s by simp
      then show ?thesis by blast
    qed
  qed
qed

lemma Next_total:
  assumes len: "length (handlers_ctx c) \<le> 127"
  shows "\<exists>n r. Next n (c, []) = Some r"
proof -
  let ?k = "length (handlers_ctx c) + 128"
  have T: "\<exists>n r. Next_loop n (c', tr) = Some r"
    if "length (handlers_ctx c') \<le> 127" "sorted_wrt (<) tr"
      "aborted c' \<or> (\<forall>j\<in>set tr. int j < sint (index c'))"
      "aborted c' \<or> int (length (handlers_ctx c')) - sint (index c') \<le> int ?k" for c' tr
    using Next_loop_total_aux [OF that] .
  have "aborted c \<or> int (length (handlers_ctx c)) - (sint (index c) + 1) \<le> int ?k"
    using sint8_range [of "index c"] by simp
  from advance_total [OF T len _ _ this, of "[]"]
  obtain n r where "Next_loop n (c\<lparr>index := index c + 1\<rparr>, []) = Some r" by auto
  then have "Next (Suc n) (c, []) = Some r" by simp
  then show ?thesis by blast
qed

lemma invoke_aborted_any:
  "aborted c \<Longrightarrow> length as + 2 \<le> n \<Longrightarrow>
   \<exists>r. invoke n as (c, tr) = Some r \<and> snd (stateOf r) = tr \<and> aborted (fst (stateOf r))"
proof (induction as arbitrary: c n)
  case Nil
  define k where "k = n - 1"
  with Nil have "n = Suc k" by simp
  with Nil show ?case by simp
next
  case (Cons a as)
  define k where "k = n - 3"
  with Cons.prems have n: "n = Suc (Suc (Suc k))" and k: "length as + 2 \<le> Suc (Suc k)" by simp_all
  show ?case
  proof (cases "a = CallNext")
    case True
    let ?c1 = "c\<lparr>index := index c + 1\<rparr>"
    from Cons.prems have "aborted ?c1" by simp
    from Cons.IH [OF this k] obtain r where
      "invoke (Suc (Suc k)) as (?c1, tr) = Some r" "snd (stateOf r) = tr" "aborted (fst (stateOf r))"
      by blast
    with True n Cons.prems(1) show ?thesis by simp
  next
    case False
    show ?thesis
    proof (cases "perform a c")
      case (Panicked c1)
      with perform_keeps [of a c c1] Cons.prems(1) have "aborted c1" by simp
      with False n Panicked show ?thesis by simp
    next
      case (Returned c1)
      with perform_keeps [of a c c1] Cons.prems(1) have "aborted c1" by simp
      from Cons.IH [OF this k] obtain r where
        "invoke (Suc (Suc k)) as (c1, tr) = Some r" "snd (stateOf r) = tr"
        "aborted (fst (stateOf r))" by blast
      with False n Returned show ?thesis by simp
    qed
  qed
qed

lemma Next_past_end:
  assumes "int (length (handlers_ctx c)) \<le> sint (index c)" and "sint (index c) < 127"
  shows "Next (Suc (Suc n)) (c, tr) = Some (Returned (c\<lparr>index := index c + 1\<rparr>, tr))"
proof -
  from assms have "length (handlers_ctx c) \<le> 127" by simp
  then have "sint (of_nat (length (handlers_ctx c)) :: 8 word) = int (length (handlers_ctx c))"
    by (rule sint8_of_nat)
  with assms show ?thesis by (simp add: sint8_succ)
qed

text \<open>\<open>k\<close> calls of \<^verbatim>\<open>Next\<close> in a row, as a caller makes them; a panic ends them.\<close>

fun NextTimes :: "nat \<Rightarrow> nat \<Rightarrow> run \<Rightarrow> run outcome option" where
  "NextTimes n 0 s = Some (Returned s)"
| "NextTimes n (Suc k) s =
     (case Next n s of
        Some (Returned s') \<Rightarrow> NextTimes n k s'
      | other \<Rightarrow> other)"

lemma NextTimes_past_end:
  "int (length (handlers_ctx c)) \<le> sint (index c) \<Longrightarrow> sint (index c) + int k \<le> 127 \<Longrightarrow>
   NextTimes (Suc (Suc n)) k (c, tr) = Some (Returned (c\<lparr>index := index c + of_nat k\<rparr>, tr))"
proof (induction k arbitrary: c)
  case 0
  then show ?case by simp
next
  case (Suc k)
  let ?c1 = "c\<lparr>index := index c + 1\<rparr>"
  from Suc.prems have lt: "sint (index c) < 127" by simp
  from Next_past_end [OF Suc.prems(1) lt, of n tr]
  have n1: "Next (Suc (Suc n)) (c, tr) = Some (Returned (?c1, tr))" .
  from lt have i1: "sint (index ?c1) = sint (index c) + 1" by (simp add: sint8_succ)
  with Suc.prems have "int (length (handlers_ctx ?c1)) \<le> sint (index ?c1)"
    "sint (index ?c1) + int k \<le> 127" by simp_all
  from Suc.IH [OF this]
  have "NextTimes (Suc (Suc n)) k (?c1, tr) =
      Some (Returned (?c1\<lparr>index := index ?c1 + of_nat k\<rparr>, tr))" .
  with n1 show ?case by (simp del: Next.simps add: add.assoc)
qed

lemma run_increasing:
  assumes len: "length (handlers_ctx c) \<le> 127" and run: "Next m (c, []) = Some r"
  shows "distinct (snd (stateOf r)) \<and> sorted_wrt (<) (snd (stateOf r)) \<and>
     (\<forall>j\<in>set (snd (stateOf r)). sint (index c) < int j) \<and>
     (returned r \<and> \<not> aborted (fst (stateOf r)) \<longrightarrow> sint (index c) < sint (index (fst (stateOf r))))"
proof -
  from Next_post [OF len _ _ run]
  have p: "post (sint (index c) + 1) (sint (index c) + 1) (c, []) r" by simp
  then have so: "sorted_wrt (<) (snd (stateOf r))" by (simp add: post_def)
  then have "distinct (snd (stateOf r))"
    by (simp add: strict_sorted_iff)
  with p so show ?thesis by (auto simp: post_def)
qed

subsection \<open>Abort\<close>

text \<open>
  C5. In a chain \<open>[A, B, C]\<close> started with the cursor before the first handler, where
  \<open>A\<close> does not abort and \<open>B\<close> calls an abort and does not call \<^verbatim>\<open>Next\<close>, the
  execution returns having invoked the handlers at positions 0 and 1, once each and in
  this order, and never \<open>C\<close>, whether or not (and however often) \<open>A\<close> calls
  \<^verbatim>\<open>Next\<close>. More generally, once \<^verbatim>\<open>aborted\<close> is true no handler is invoked any
  more: \<^verbatim>\<open>Next\<close> only moves the cursor, the loop returns at once, and the rest of any
  handler body runs to its end (or panics) without an invocation, and the flag stays set.
\<close>

theorem abort_stops_chain:
  "(handlers_ctx c = [A, B, C] \<and> index c = - 1 \<and> \<not> aborted c \<and> store c \<noteq> None \<and>
    (\<forall>a\<in>set A. \<not> isAbort a) \<and> CallNext \<notin> set B \<and> (\<exists>a\<in>set B. isAbort a) \<and>
    length A + length B + 10 \<le> n \<longrightarrow>
      (\<exists>c'. Next n (c, []) = Some (Returned (c', [0, 1])) \<and> aborted c')) \<and>
   (aborted d \<longrightarrow>
      Next (Suc (Suc m)) (d, tr) = Some (Returned (d\<lparr>index := index d + 1\<rparr>, tr)) \<and>
      Next_loop (Suc m) (d, tr) = Some (Returned (d, tr)) \<and>
      (length as + 2 \<le> m \<longrightarrow>
        (\<exists>r. invoke m as (d, tr) = Some r \<and> snd (stateOf r) = tr \<and> aborted (fst (stateOf r)))))"
proof -
  have one: "\<exists>c'. Next n (c, []) = Some (Returned (c', [0, 1])) \<and> aborted c'"
    if "handlers_ctx c = [A, B, C]" "index c = - 1" "\<not> aborted c" "store c \<noteq> None"
      "\<forall>a\<in>set A. \<not> isAbort a" "CallNext \<notin> set B" "\<exists>a\<in>set B. isAbort a"
      "length A + length B + 10 \<le> n"
    using three_handlers [OF that] .
  have two: "\<exists>r. invoke m as (d, tr) = Some r \<and> snd (stateOf r) = tr \<and> aborted (fst (stateOf r))"
    if "aborted d" "length as + 2 \<le> m"
    using invoke_aborted_any [OF that] .
  from one two show ?thesis by (simp del: Next.simps Next_loop.simps add: Next_aborted Next_loop_aborted)
qed

definition exampleContext :: "handler list \<Rightarrow> Context" where
  "exampleContext hs =
     (resetContext zeroContext [] \<lparr>Method = ''GET'', Path = ''/'', RawQuery = []\<rparr>)
       \<lparr>handlers_ctx := hs\<rparr>"

theorem abort_stops_chain_witness:
  "handlers_ctx (exampleContext [[CallSet ''user'' ''u1'', CallNext, CallStatus 200],
       [CallAbortWithStatus 401], [CallJSON 200 ''ok'']]) =
     [[CallSet ''user'' ''u1'', CallNext, CallStatus 200], [CallAbortWithStatus 401],
      [CallJSON 200 ''ok'']] \<and>
   index (exampleContext [[CallSet ''user'' ''u1'', CallNext, CallStatus 200],
       [CallAbortWithStatus 401], [CallJSON 200 ''ok'']]) = - 1 \<and>
   (\<exists>c'. Next 20 (exampleContext [[CallSet ''user'' ''u1'', CallNext, CallStatus 200],
       [CallAbortWithStatus 401], [CallJSON 200 ''ok'']], []) = Some (Returned (c', [0, 1])) \<and>
      aborted c') \<and>
   aborted (Abort zeroContext) \<and>
   Next_loop (Suc 0) (Abort zeroContext, [0]) = Some (Returned (Abort zeroContext, [0]))"
proof -
  let ?A = "[CallSet ''user'' ''u1'', CallNext, CallStatus 200]"
  let ?B = "[CallAbortWithStatus 401]"
  let ?C = "[CallJSON 200 ''ok'']"
  let ?c = "exampleContext [?A, ?B, ?C]"
  have h: "handlers_ctx ?c = [?A, ?B, ?C]" "index ?c = - 1" "\<not> aborted ?c" "store ?c \<noteq> None"
    by (simp_all add: exampleContext_def resetContext_def zeroContext_def)
  have ab: "aborted (Abort zeroContext)" by (simp add: Abort_def)
  from abort_stops_chain [of ?c ?A ?B ?C 20 "Abort zeroContext" 0 "[0]" "[]"] h ab
  show ?thesis by (simp del: Next.simps Next_loop.simps)
qed

subsection \<open>The cursor\<close>

text \<open>
  C6, as stated, fails at the end of the cursor's range: with the cursor at 127, past the
  end of an empty chain, \<^verbatim>\<open>Next\<close> wraps the cursor to -128, which is below the
  chain's length, and indexing the chain with it panics. The cursor has decreased and
  the call is not a no-op.
\<close>

theorem advance_past_end_counterexample:
  "Next 3 (zeroContext\<lparr>index := 127\<rparr>, []) =
     Some (Panicked (zeroContext\<lparr>index := - 128\<rparr>, [])) \<and>
   int (length (handlers_ctx (zeroContext\<lparr>index := 127\<rparr>))) \<le>
     sint (index (zeroContext\<lparr>index := 127\<rparr>)) \<and>
   sint (- 128 :: 8 word) < sint (127 :: 8 word)"
  by (simp add: zeroContext_def numeral_3_eq_3)

text \<open>The state of the counterexample is reached by a request: a chain of one handler
  that calls \<^verbatim>\<open>Next\<close> 128 times panics in the last of these calls.\<close>

lemma cursor_wraps_in_a_run:
  "map_option (\<lambda>r. (returned r, sint (index (fst (stateOf r))), snd (stateOf r)))
     (Next 1000 (exampleContext [replicate 128 CallNext], [])) = Some (False, - 128, [0])"
  by code_simp

text \<open>
  C6, amended. The cursor is a signed 8-bit integer. When the cursor is at or past the end
  of the chain and below 127, \<^verbatim>\<open>Next\<close> invokes no handler and changes nothing but
  the cursor, which it increments; so do \<open>k\<close> such calls in a row as long as the
  cursor stays within 127 (at 127 the next call wraps the cursor and panics). For a
  chain of at most 127 handlers, every execution of \<^verbatim>\<open>Next\<close>, from any state,
  ends (returns or panics); the positions it invokes are strictly increasing and all
  above the cursor it was called with, so no handler is invoked a second time; and when
  it returns with the chain not aborted, the cursor has increased.
\<close>

theorem advance_monotone:
  "(int (length (handlers_ctx c)) \<le> sint (index c) \<and> sint (index c) < 127 \<longrightarrow>
      Next (Suc (Suc n)) (c, tr) = Some (Returned (c\<lparr>index := index c + 1\<rparr>, tr))) \<and>
   (int (length (handlers_ctx c)) \<le> sint (index c) \<and> sint (index c) + int k \<le> 127 \<longrightarrow>
      NextTimes (Suc (Suc n)) k (c, tr) =
        Some (Returned (c\<lparr>index := index c + of_nat k\<rparr>, tr))) \<and>
   (length (handlers_ctx d) \<le> 127 \<longrightarrow>
      (\<exists>m r. Next m (d, []) = Some r) \<and>
      (\<forall>m r. Next m (d, []) = Some r \<longrightarrow>
         distinct (snd (stateOf r)) \<and> sorted_wrt (<) (snd (stateOf r)) \<and>
         (\<forall>j\<in>set (snd (stateOf r)). sint (index d) < int j) \<and>
         (returned r \<and> \<not> aborted (fst (stateOf r)) \<longrightarrow>
            sint (index d) < sint (index (fst (stateOf r))))))"
proof (intro conjI impI)
  assume "int (length (handlers_ctx c)) \<le> sint (index c) \<and> sint (index c) < 127"
  then show "Next (Suc (Suc n)) (c, tr) = Some (Returned (c\<lparr>index := index c + 1\<rparr>, tr))"
    using Next_past_end [of c n tr] by blast
next
  assume "int (length (handlers_ctx c)) \<le> sint (index c) \<and> sint (index c) + int k \<le> 127"
  then show "NextTimes (Suc (Suc n)) k (c, tr) =
      Some (Returned (c\<lparr>index := index c + of_nat k\<rparr>, tr))"
    using NextTimes_past_end [of c k n tr] by blast
next
  assume "length (handlers_ctx d) \<le> 127"
  then show "\<exists>m r. Next m (d, []) = Some r" by (rule Next_total)
next
  assume len: "length (handlers_ctx d) \<le> 127"
  show "\<forall>m r. Next m (d, []) = Some r \<longrightarrow>
         distinct (snd (stateOf r)) \<and> sorted_wrt (<) (snd (stateOf r)) \<and>
         (\<forall>j\<in>set (snd (stateOf r)). sint (index d) < int j) \<and>
         (returned r \<and> \<not> aborted (fst (stateOf r)) \<longrightarrow>
            sint (index d) < sint (index (fst (stateOf r))))"
    using run_increasing [OF len] by blast
qed

theorem advance_monotone_witness:
  "Next 2 (exampleContext [] \<lparr>index := 5\<rparr>, []) =
     Some (Returned (exampleContext [] \<lparr>index := 6\<rparr>, [])) \<and>
   NextTimes 2 3 (exampleContext [] \<lparr>index := 5\<rparr>, []) =
     Some (Returned (exampleContext [] \<lparr>index := 8\<rparr>, [])) \<and>
   Next 9 (exampleContext [[CallNext], []], []) =
     Some (Returned (exampleContext [[CallNext], []] \<lparr>index := 3\<rparr>, [0, 1])) \<and>
   distinct [0, 1 :: nat] \<and>
   sint (index (exampleContext [[CallNext], []])) < sint (3 :: 8 word)"
proof -
  let ?c = "exampleContext [] \<lparr>index := 5\<rparr>"
  let ?d = "exampleContext [[CallNext], []]"
  have c: "int (length (handlers_ctx ?c)) \<le> sint (index ?c)" "sint (index ?c) < 127"
    "sint (index ?c) + int 3 \<le> 127"
    by (simp_all add: exampleContext_def)
  have d: "length (handlers_ctx ?d) \<le> 127" by (simp add: exampleContext_def)
  have run: "Next 9 (?d, []) = Some (Returned (?d\<lparr>index := 3\<rparr>, [0, 1]))"
    by (simp add: exampleContext_def resetContext_def zeroContext_def eval_nat_numeral)
  from advance_monotone [of ?c 0 "[]" 3 ?d] c d run
  show ?thesis
    by (simp del: Next.simps NextTimes.simps add: numeral_2_eq_2 exampleContext_def
        resetContext_def zeroContext_def)
qed

section \<open>Reuse of a pooled context\<close>

text \<open>The context a prepared request starts its chain in, if preparing it did not panic.\<close>

definition started :: "Context outcome \<Rightarrow> Context option" where
  "started r = (case r of Returned c \<Rightarrow> Some c | Panicked c \<Rightarrow> None)"

text \<open>
  C7, as stated, fails in one point: the assignments at acquisition do not clear the
  chain reference. A context that comes back from the pool holding a chain still holds
  it after the reset.
\<close>

theorem reset_keeps_chain_counterexample:
  "handlers_ctx (resetContext (zeroContext\<lparr>handlers_ctx := [[CallAbort]]\<rparr>) []
     \<lparr>Method = ''GET'', Path = ''/'', RawQuery = []\<rparr>) = [[CallAbort]]"
  by (simp add: resetContext_def zeroContext_def)

text \<open>
  C7, amended. The reset at acquisition sets \<^verbatim>\<open>Params\<close> and the store to new empty
  maps, the cursor to -1, \<^verbatim>\<open>aborted\<close> to false and the status to 200; it leaves the
  chain reference as it was. \<^verbatim>\<open>handleRequest\<close> always assigns the chain before it
  starts it, so the context in which the chain of the new request starts does not depend
  on the context instance that was reused: it is the same for any two instances \<open>c\<close>
  and \<open>c'\<close>, whatever earlier requests left in them. Serving a request with a context
  taken from the pool therefore runs as with a new context, unless the lookup itself
  panics, in which case no handler runs.
\<close>

theorem pooled_context_reset:
  "Params (resetContext c w req) = Some Map.empty \<and>
   store (resetContext c w req) = Some Map.empty \<and>
   index (resetContext c w req) = - 1 \<and>
   aborted (resetContext c w req) = False \<and>
   statusCode (resetContext c w req) = 200 \<and>
   handlers_ctx (resetContext c w req) = handlers_ctx c \<and>
   started (handleRequest_prepare trees (resetContext c w req)) =
     started (handleRequest_prepare trees (resetContext c' w req)) \<and>
   (map_option fst (ServeHTTP fuel trees (c # pool) w req) =
      map_option fst (ServeHTTP fuel trees [] w req) \<or>
    (\<exists>e. Engine_lookup trees (Method req) (Path req) = Inl e))"
proof -
  have eq: "handleRequest_prepare trees (resetContext c1 w req) =
      handleRequest_prepare trees (resetContext c2 w req)"
    if "Engine_lookup trees (Method req) (Path req) = Inr x" for c1 c2 x
    using that
    by (cases x)
       (auto simp: handleRequest_prepare_def resetContext_def Set_ctx_def split: option.splits)
  have st: "started (handleRequest_prepare trees (resetContext c w req)) =
     started (handleRequest_prepare trees (resetContext c' w req))"
  proof (cases "Engine_lookup trees (Method req) (Path req)")
    case (Inl e)
    then show ?thesis
      by (simp add: handleRequest_prepare_def resetContext_def started_def)
  next
    case (Inr x)
    from eq [OF this, of c c'] show ?thesis by simp
  qed
  have run: "map_option fst (ServeHTTP fuel trees (c # pool) w req) =
      map_option fst (ServeHTTP fuel trees [] w req) \<or>
    (\<exists>e. Engine_lookup trees (Method req) (Path req) = Inl e)"
  proof (cases "Engine_lookup trees (Method req) (Path req)")
    case (Inl e)
    then show ?thesis by blast
  next
    case (Inr x)
    from eq [OF this, of c zeroContext]
    have "handleRequest fuel trees (resetContext c w req) =
        handleRequest fuel trees (resetContext zeroContext w req)"
      by (simp add: handleRequest_def)
    then have "map_option fst (ServeHTTP fuel trees (c # pool) w req) =
      map_option fst (ServeHTTP fuel trees [] w req)"
      by (auto simp: ServeHTTP_def poolGet_def split: option.splits outcome.splits)
    then show ?thesis by blast
  qed
  from st run show ?thesis by (simp add: resetContext_def)
qed

section \<open>Priorities of sibling children\<close>

text \<open>
  \<^verbatim>\<open>incrementChildPrio\<close> moves one child towards the front: the children after the
  call are the children before it with the child at position \<open>p\<close> taken out and put
  back at position \<open>k\<close>.
\<close>

definition rot :: "nat \<Rightarrow> nat \<Rightarrow> 'a list \<Rightarrow> 'a list" where
  "rot k p xs = take k xs @ [xs ! p] @ drop k (take p xs) @ drop (Suc p) xs"

lemma rot_same: "p < length xs \<Longrightarrow> rot p p xs = xs"
  by (simp add: rot_def id_take_nth_drop [symmetric])

lemma length_rot: "k \<le> p \<Longrightarrow> p < length xs \<Longrightarrow> length (rot k p xs) = length xs"
  by (simp add: rot_def)

lemma rot_nth: "k \<le> p \<Longrightarrow> p < length xs \<Longrightarrow> rot k p xs ! k = xs ! p"
  by (simp add: rot_def nth_append)

lemma mset_rot: "k \<le> p \<Longrightarrow> p < length xs \<Longrightarrow> mset (rot k p xs) = mset xs"
proof -
  assume kp: "k \<le> p" and p: "p < length xs"
  have a: "xs = take p xs @ xs ! p # drop (Suc p) xs" using p by (rule id_take_nth_drop)
  have b: "take p xs = take k (take p xs) @ drop k (take p xs)"
    by (simp only: append_take_drop_id)
  have c: "take k (take p xs) = take k xs" using kp by (simp add: min_def)
  have "mset xs = mset (take p xs) + mset (xs ! p # drop (Suc p) xs)"
    by (subst a) (simp only: mset_append)
  also have "mset (take p xs) = mset (take k xs) + mset (drop k (take p xs))"
    by (subst b) (simp only: mset_append c)
  finally show ?thesis by (simp add: rot_def)
qed

lemma set_rot: "k \<le> p \<Longrightarrow> p < length xs \<Longrightarrow> set (rot k p xs) = set xs"
  using mset_rot [of k p xs] by (metis set_mset_mset)

lemma distinct_rot: "k \<le> p \<Longrightarrow> p < length xs \<Longrightarrow> distinct (rot k p xs) = distinct xs"
  by (rule mset_eq_imp_distinct_iff) (rule mset_rot)

lemma zip_rot:
  "k \<le> p \<Longrightarrow> p < length xs \<Longrightarrow> length xs = length ys \<Longrightarrow>
   zip (rot k p xs) (rot k p ys) = rot k p (zip xs ys)"
  by (simp add: rot_def zip_append take_zip drop_zip min_def)

lemma moveForward_rot:
  "k < length cs \<Longrightarrow> moveForward cs k prio = (cs', k') \<Longrightarrow>
   k' \<le> k \<and> cs' = rot k' k cs \<and>
   (\<forall>j. k' \<le> j \<and> j < k \<longrightarrow> priority (cs ! j) < prio) \<and>
   (0 < k' \<longrightarrow> \<not> priority (cs ! (k' - 1)) < prio)"
proof (induction cs k prio arbitrary: cs' k' rule: moveForward.induct)
  case (1 cs prio)
  then show ?case by (simp add: rot_same)
next
  case (2 cs k prio)
  show ?case
  proof (cases "priority (cs ! k) < prio")
    case False
    with 2 show ?thesis by (auto simp: rot_same)
  next
    case True
    let ?sw = "cs[k := cs ! Suc k, Suc k := cs ! k]"
    from True "2.prems" have mf: "moveForward ?sw k prio = (cs', k')" by simp
    from "2.prems" have klen: "k < length ?sw" by simp
    from "2.IH" [OF True klen mf] have k': "k' \<le> k" and cs': "cs' = rot k' k ?sw"
      and lo: "\<forall>j. k' \<le> j \<and> j < k \<longrightarrow> priority (?sw ! j) < prio"
      and hi: "0 < k' \<longrightarrow> \<not> priority (?sw ! (k' - 1)) < prio" by auto
    have t1: "take k ?sw = take k cs" by simp
    have t2: "take k' ?sw = take k' cs" using k' by simp
    have t3: "drop (Suc k) ?sw = cs ! k # drop (Suc (Suc k)) cs"
      using "2.prems"(1) by (simp add: drop_update_swap Cons_nth_drop_Suc [symmetric] upd_conv_take_nth_drop)
    have t4: "?sw ! k = cs ! Suc k" using "2.prems"(1) by simp
    have t5: "drop k' (take (Suc k) cs) = drop k' (take k cs) @ [cs ! k]"
      using k' "2.prems"(1) by (simp add: take_Suc_conv_app_nth)
    have "cs' = rot k' (Suc k) cs"
      unfolding cs' rot_def t1 t2 t3 t4 t5 by simp
    moreover have "\<forall>j. k' \<le> j \<and> j < Suc k \<longrightarrow> priority (cs ! j) < prio"
    proof (intro allI impI)
      fix j assume j: "k' \<le> j \<and> j < Suc k"
      show "priority (cs ! j) < prio"
      proof (cases "j = k")
        case True
        with \<open>priority (cs ! k) < prio\<close> show ?thesis by simp
      next
        case False
        with j lo have "priority (?sw ! j) < prio" by simp
        with False j show ?thesis by simp
      qed
    qed
    moreover have "0 < k' \<longrightarrow> \<not> priority (cs ! (k' - 1)) < prio"
      using hi k' by (cases k') auto
    ultimately show ?thesis using k' by simp
  qed
qed

text \<open>Siblings in non-increasing order of priority, at one node and in a whole tree
  (\<open>prioOrdered\<close>); \<open>prioBound N\<close> bounds every priority of a tree.\<close>

definition prioSorted :: "'h node list \<Rightarrow> bool" where
  "prioSorted cs \<longleftrightarrow> sorted_wrt (\<lambda>a b. priority b \<le> priority a) cs"

lemma unat32_succ: "unat (x :: 32 word) + 1 < 2 ^ 32 \<Longrightarrow> unat (x + 1) = unat x + 1"
  by (simp add: unat_word_ariths)

lemma priority_bumpPriority [simp]: "priority (bumpPriority c) = priority c + 1"
  by (simp add: bumpPriority_def)

lemma prioSorted_rot:
  assumes so: "prioSorted cs" and p: "pos < length cs" and k: "k \<le> pos"
    and nov: "unat (priority (cs ! pos)) + 1 < 2 ^ 32"
    and lo: "\<forall>j. k \<le> j \<and> j < pos \<longrightarrow> priority (cs ! j) < priority (cs ! pos) + 1"
    and hi: "0 < k \<longrightarrow> \<not> priority (cs ! (k - 1)) < priority (cs ! pos) + 1"
  shows "prioSorted (rot k pos (cs[pos := bumpPriority (cs ! pos)]))"
proof -
  let ?R = "\<lambda>a b :: 'a node. priority b \<le> priority a"
  let ?x = "bumpPriority (cs ! pos)"
  let ?A = "take k cs" and ?B = "drop k (take pos cs)" and ?C = "drop (Suc pos) cs"
  have so': "sorted_wrt ?R cs" using so by (simp add: prioSorted_def)
  have nth: "\<And>i j. i < j \<Longrightarrow> j < length cs \<Longrightarrow> priority (cs ! j) \<le> priority (cs ! i)"
    using so' by (simp add: sorted_wrt_iff_nth_less)
  have le1: "priority (cs ! pos) \<le> priority (cs ! pos) + 1"
    using nov by (simp add: word_le_nat_alt unat32_succ)
  have r: "rot k pos (cs[pos := ?x]) = ?A @ [?x] @ ?B @ ?C"
    using p k by (simp add: rot_def)
  have sA: "sorted_wrt ?R ?A" using so' by (rule sorted_wrt_take)
  have sB: "sorted_wrt ?R ?B" using so' by (intro sorted_wrt_drop sorted_wrt_take)
  have sC: "sorted_wrt ?R ?C" using so' by (rule sorted_wrt_drop)
  have A: "priority ?x \<le> priority a" if "a \<in> set ?A" for a
  proof -
    from that obtain i where i: "i < k" "a = cs ! i"
      using p k by (auto simp: in_set_conv_nth)
    then have "0 < k" by simp
    with hi have h: "priority (cs ! pos) + 1 \<le> priority (cs ! (k - 1))" by simp
    have "priority (cs ! (k - 1)) \<le> priority (cs ! i)"
    proof (cases "i = k - 1")
      case True
      then show ?thesis by simp
    next
      case False
      with i have "i < k - 1" by simp
      moreover have "k - 1 < length cs" using p k i by simp
      ultimately show ?thesis by (rule nth)
    qed
    with h i show ?thesis by simp
  qed
  have B: "priority b \<le> priority ?x" "priority b \<le> priority (cs ! k)" if "b \<in> set ?B" for b
  proof -
    from that obtain j where j: "j < pos - k" "b = cs ! (k + j)"
      using p k by (auto simp: in_set_conv_nth)
    with lo have "priority b < priority (cs ! pos) + 1" by simp
    then show "priority b \<le> priority ?x" by simp
    show "priority b \<le> priority (cs ! k)"
    proof (cases j)
      case 0
      with j show ?thesis by simp
    next
      case (Suc j')
      with j p have "k < k + j" "k + j < length cs" by simp_all
      with j nth show ?thesis by simp
    qed
  qed
  have C: "priority c \<le> priority (cs ! pos)" if "c \<in> set ?C" for c
  proof -
    from that obtain j where j: "j < length cs - Suc pos" "c = cs ! (Suc pos + j)"
      by (auto simp: in_set_conv_nth)
    then have "pos < Suc pos + j" "Suc pos + j < length cs" by simp_all
    with j nth show ?thesis by simp
  qed
  have Cx: "priority c \<le> priority ?x" if "c \<in> set ?C" for c
    using C [OF that] le1 by simp
  have AB: "priority b \<le> priority a" if "a \<in> set ?A" "b \<in> set ?B" for a b
  proof -
    from that obtain i where i: "i < k" "a = cs ! i" using p k by (auto simp: in_set_conv_nth)
    from that obtain j where j: "j < pos - k" "b = cs ! (k + j)"
      using p k by (auto simp: in_set_conv_nth)
    from i j p have "i < k + j" "k + j < length cs" by simp_all
    with i j nth show ?thesis by simp
  qed
  have AC: "priority c \<le> priority a" if "a \<in> set ?A" "c \<in> set ?C" for a c
  proof -
    from that obtain i where i: "i < k" "a = cs ! i" using p k by (auto simp: in_set_conv_nth)
    from that obtain j where j: "j < length cs - Suc pos" "c = cs ! (Suc pos + j)"
      by (auto simp: in_set_conv_nth)
    from i j p k have "i < Suc pos + j" "Suc pos + j < length cs" by simp_all
    with i j nth show ?thesis by simp
  qed
  have BC: "priority c \<le> priority b" if "b \<in> set ?B" "c \<in> set ?C" for b c
  proof -
    from that obtain i where i: "i < pos - k" "b = cs ! (k + i)"
      using p k by (auto simp: in_set_conv_nth)
    from that obtain j where j: "j < length cs - Suc pos" "c = cs ! (Suc pos + j)"
      by (auto simp: in_set_conv_nth)
    from i j p k have "k + i < Suc pos + j" "Suc pos + j < length cs" by simp_all
    with i j nth show ?thesis by simp
  qed
  show ?thesis
    unfolding prioSorted_def r
    using sA sB sC A B(1) Cx AB AC BC
    by (auto simp: sorted_wrt_append)
qed

fun prioOrdered :: "'h node \<Rightarrow> bool" where
  "prioOrdered (Node p ix cs h pr t w fp) = (prioSorted cs \<and> (\<forall>c\<in>set cs. prioOrdered c))"

fun prioBound :: "nat \<Rightarrow> 'h node \<Rightarrow> bool" where
  "prioBound N (Node p ix cs h pr t w fp) = (unat pr \<le> N \<and> (\<forall>c\<in>set cs. prioBound N c))"

lemma prioOrdered_iff:
  "prioOrdered n \<longleftrightarrow> prioSorted (children n) \<and> (\<forall>c\<in>set (children n). prioOrdered c)"
  by (cases n) simp

lemma prioBound_iff:
  "prioBound N n \<longleftrightarrow> unat (priority n) \<le> N \<and> (\<forall>c\<in>set (children n). prioBound N c)"
  by (cases n) simp

lemma prioBound_mono: "prioBound N n \<Longrightarrow> N \<le> M \<Longrightarrow> prioBound M n"
proof (induction n)
  case (Node p ix cs h pr t w fp)
  then show ?case by auto
qed

lemma prioSorted_Nil [simp]: "prioSorted []"
  by (simp add: prioSorted_def)

lemma prioSorted_single [simp]: "prioSorted [c]"
  by (simp add: prioSorted_def)

lemma prioSorted_map: "prioSorted cs \<longleftrightarrow> sorted_wrt (\<lambda>a b. b \<le> a) (map priority cs)"
  by (simp add: prioSorted_def sorted_wrt_map)

lemma prioSorted_update:
  "prioSorted cs \<Longrightarrow> k < length cs \<Longrightarrow> priority c = priority (cs ! k) \<Longrightarrow> prioSorted (cs[k := c])"
proof -
  assume a: "prioSorted cs" "k < length cs" "priority c = priority (cs ! k)"
  then have "(map priority cs)[k := priority c] = map priority cs"
    by (simp add: list_update_same_conv)
  then have "map priority (cs[k := c]) = map priority cs" by (simp add: map_update)
  with a(1) show ?thesis by (simp add: prioSorted_map)
qed

lemma children_bumpPriority [simp]: "children (bumpPriority c) = children c"
  by (simp add: bumpPriority_def)

lemma incrementChildPrio_Inr:
  assumes "incrementChildPrio n pos = Inr (n', k')"
  shows "pos < length (children n) \<and> k' \<le> pos \<and>
    children n' = rot k' pos ((children n)[pos := bumpPriority (children n ! pos)]) \<and>
    path n' = path n \<and> handlers n' = handlers n \<and> priority n' = priority n \<and>
    nType n' = nType n \<and> wildChild n' = wildChild n \<and> fullPath n' = fullPath n \<and>
    indices n' = (if k' = pos then indices n else rot k' pos (indices n)) \<and>
    (k' \<noteq> pos \<longrightarrow> pos < length (indices n)) \<and>
    (\<forall>j. k' \<le> j \<and> j < pos \<longrightarrow> priority (children n ! j) < priority (children n ! pos) + 1) \<and>
    (0 < k' \<longrightarrow> \<not> priority (children n ! (k' - 1)) < priority (children n ! pos) + 1)"
proof -
  from assms have pos: "pos < length (children n)"
    by (auto simp: incrementChildPrio_def split: if_splits)
  let ?cs = "(children n)[pos := bumpPriority (children n ! pos)]"
  let ?prio = "priority (children n ! pos) + 1"
  obtain cs' k where mf: "moveForward ?cs pos (priority (?cs ! pos)) = (cs', k)"
    by (cases "moveForward ?cs pos (priority (?cs ! pos))") auto
  from pos have len: "pos < length ?cs" by simp
  from pos have pr: "priority (?cs ! pos) = ?prio" by simp
  from moveForward_rot [OF len mf] have k: "k \<le> pos" and cs': "cs' = rot k pos ?cs"
    and lo: "\<forall>j. k \<le> j \<and> j < pos \<longrightarrow> priority (?cs ! j) < ?prio"
    and hi: "0 < k \<longrightarrow> \<not> priority (?cs ! (k - 1)) < ?prio"
    unfolding pr by auto
  from lo have lo': "\<forall>j. k \<le> j \<and> j < pos \<longrightarrow> priority (children n ! j) < ?prio" by auto
  from hi k have hi': "0 < k \<longrightarrow> \<not> priority (children n ! (k - 1)) < ?prio"
  proof (cases "k - 1 = pos")
    case True
    with k have "k = 0" by simp
    then show ?thesis by simp
  next
    case False
    with hi show ?thesis by simp
  qed
  from assms mf pos have res: "k' = k" "children n' = cs'" "path n' = path n"
    "handlers n' = handlers n" "priority n' = priority n" "nType n' = nType n"
    "wildChild n' = wildChild n" "fullPath n' = fullPath n"
    "indices n' = (if k = pos then indices n else rot k pos (indices n))"
    "k \<noteq> pos \<longrightarrow> pos < length (indices n)"
    by (auto simp: incrementChildPrio_def Let_def setChildren_def rot_def split: if_splits)
  with pos k cs' lo' hi' show ?thesis by simp
qed

lemma incrementChildPrio_sorted:
  assumes inc: "incrementChildPrio n pos = Inr (n', k')" and so: "prioSorted (children n)"
    and nov: "unat (priority (children n ! pos)) + 1 < 2 ^ 32"
  shows "prioSorted (children n')"
proof -
  from incrementChildPrio_Inr [OF inc] have f: "pos < length (children n)" "k' \<le> pos"
    "children n' = rot k' pos ((children n)[pos := bumpPriority (children n ! pos)])"
    "\<forall>j. k' \<le> j \<and> j < pos \<longrightarrow> priority (children n ! j) < priority (children n ! pos) + 1"
    "0 < k' \<longrightarrow> \<not> priority (children n ! (k' - 1)) < priority (children n ! pos) + 1"
    by simp_all
  from prioSorted_rot [OF so f(1,2) nov f(4,5)] f(3) show ?thesis by simp
qed

text \<open>The cases in which one iteration of the \<^verbatim>\<open>walk\<close> loop succeeds.\<close>

definition walkNode :: "'h node \<Rightarrow> string \<Rightarrow> string \<Rightarrow> nat \<Rightarrow> 'h node" where
  "walkNode n pth fp pfi =
     (if longestCommonPrefix pth (path n) < length (path n)
      then splitEdge n pth fp pfi (longestCommonPrefix pth (path n)) else n)"

definition walkRest :: "'h node \<Rightarrow> string \<Rightarrow> string" where
  "walkRest n pth = drop (longestCommonPrefix pth (path n)) pth"

definition newChild :: "'h node \<Rightarrow> char \<Rightarrow> string \<Rightarrow> 'h node" where
  "newChild n1 x fp =
     Node (path n1) (indices n1 @ [x]) (children n1 @ [Node [] [] [] None 0 static False fp])
       (handlers n1) (priority n1) (nType n1) (wildChild n1) (fullPath n1)"

lemma walk_Inr_cases [consumes 1, case_names here wild child new wildins]:
  assumes res: "walk n pth fp pfi hs = Inr n'"
  obtains
    (here) "\<not> longestCommonPrefix pth (path n) < length pth"
      "handlers (walkNode n pth fp pfi) = None"
      "n' = Node (path (walkNode n pth fp pfi)) (indices (walkNode n pth fp pfi))
         (children (walkNode n pth fp pfi)) hs (priority (walkNode n pth fp pfi))
         (nType (walkNode n pth fp pfi)) (wildChild (walkNode n pth fp pfi)) fp"
  | (wild) c cs c' where "longestCommonPrefix pth (path n) < length pth"
      "wildChild (walkNode n pth fp pfi)" "children (walkNode n pth fp pfi) = c # cs"
      "wildcardMatches c (walkRest n pth)"
      "walk (bumpPriority c) (walkRest n pth) fp (pfi + length (path (walkNode n pth fp pfi))) hs
         = Inr c'"
      "n' = setChildren (c' # cs) (walkNode n pth fp pfi)"
  | (child) k n2 k' c' where "longestCommonPrefix pth (path n) < length pth"
      "\<not> wildChild (walkNode n pth fp pfi)"
      "indexByte (hd (walkRest n pth)) (indices (walkNode n pth fp pfi)) = Some k"
      "incrementChildPrio (walkNode n pth fp pfi) k = Inr (n2, k')"
      "walk (children n2 ! k') (walkRest n pth) fp
         (pfi + length (path (walkNode n pth fp pfi))) hs = Inr c'"
      "n' = setChildren ((children n2)[k' := c']) n2"
  | (new) n2 n3 k' childPos c' where "longestCommonPrefix pth (path n) < length pth"
      "\<not> wildChild (walkNode n pth fp pfi)"
      "indexByte (hd (walkRest n pth)) (indices (walkNode n pth fp pfi)) = None"
      "hd (walkRest n pth) \<noteq> CHR '':''" "hd (walkRest n pth) \<noteq> CHR ''*''"
      "n2 = newChild (walkNode n pth fp pfi) (hd (walkRest n pth)) fp"
      "incrementChildPrio n2 (length (indices n2) - 1) = Inr (n3, k')"
      "childPos = (if length (indices n2) = length (children n2) then k'
                   else length (children n2) - 1)"
      "insertChild (children n3 ! childPos) (walkRest n pth) fp hs = Inr c'"
      "n' = setChildren ((children n3)[childPos := c']) n3"
  | (wildins) "longestCommonPrefix pth (path n) < length pth"
      "\<not> wildChild (walkNode n pth fp pfi)"
      "indexByte (hd (walkRest n pth)) (indices (walkNode n pth fp pfi)) = None"
      "hd (walkRest n pth) = CHR '':'' \<or> hd (walkRest n pth) = CHR ''*''"
      "insertChild (walkNode n pth fp pfi) (walkRest n pth) fp hs = Inr n'"
proof -
  let ?i = "longestCommonPrefix pth (path n)"
  let ?n1 = "walkNode n pth fp pfi"
  let ?p1 = "walkRest n pth"
  note r = res [unfolded walk.simps [of n pth fp pfi hs] Let_def,
      folded walkNode_def walkRest_def]
  from r have ok: "\<not> (?i < length (path n) \<and> length fp < pfi + ?i)"
    by (auto split: if_splits)
  show thesis
  proof (cases "?i < length pth")
    case False
    with r ok here show ?thesis by (auto split: if_splits)
  next
    case ilt: True
    show ?thesis
    proof (cases "wildChild ?n1")
      case True
      with r ok ilt obtain c cs where cs: "children ?n1 = c # cs"
        by (cases "children ?n1") (auto split: if_splits)
      with r ok ilt True have m: "wildcardMatches c ?p1"
        by (auto split: if_splits)
      with r ok ilt True cs obtain c' where
        "walk (bumpPriority c) ?p1 fp (pfi + length (path ?n1)) hs = Inr c'"
        "n' = setChildren (c' # cs) ?n1"
        by (auto split: if_splits sum.splits)
      with wild ilt True cs m show ?thesis by blast
    next
      case nw: False
      show ?thesis
      proof (cases "indexByte (hd ?p1) (indices ?n1)")
        case (Some k)
        with r ok ilt nw obtain n2 k' c' where
          "incrementChildPrio ?n1 k = Inr (n2, k')"
          "walk (children n2 ! k') ?p1 fp (pfi + length (path ?n1)) hs = Inr c'"
          "n' = setChildren ((children n2)[k' := c']) n2"
          by (auto split: if_splits sum.splits prod.splits)
        with child ilt nw Some show ?thesis by blast
      next
        case None
        show ?thesis
        proof (cases "hd ?p1 = CHR '':'' \<or> hd ?p1 = CHR ''*''")
          case True
          with r ok ilt nw None have "insertChild ?n1 ?p1 fp hs = Inr n'"
            by (auto split: if_splits)
          with wildins ilt nw None True show ?thesis by blast
        next
          case False
          let ?n2 = "newChild ?n1 (hd ?p1) fp"
          from r ok ilt nw None False obtain n3 k' c' where
            "incrementChildPrio ?n2 (length (indices ?n2) - 1) = Inr (n3, k')"
            "insertChild (children n3 ! (if length (indices ?n2) = length (children ?n2) then k'
                   else length (children ?n2) - 1)) ?p1 fp hs = Inr c'"
            "n' = setChildren ((children n3)[(if length (indices ?n2) = length (children ?n2) then k'
                   else length (children ?n2) - 1) := c']) n3"
            unfolding newChild_def
            by (auto split: if_splits sum.splits prod.splits)
          with new [OF ilt nw None _ _ refl] False show ?thesis by blast
        qed
      qed
    qed
  qed
qed

lemma insertChild_prio:
  "(\<forall>c\<in>set (children n). prioBound N c \<and> prioOrdered c) \<Longrightarrow> prioSorted (children n) \<Longrightarrow>
   1 \<le> N \<Longrightarrow> insertChild n pth fp hs = Inr n' \<Longrightarrow>
   prioSorted (children n') \<and> (\<forall>c\<in>set (children n'). prioBound N c \<and> prioOrdered c) \<and>
   priority n' = priority n"
proof (induction n pth fp hs arbitrary: n' rule: insertChild.induct)
  case (1 n pth fp hs)
  note res = "1.prems"(4) [unfolded insertChild.simps [of n pth fp hs]]
  show ?case
  proof (cases "findWildcard pth")
    case None
    with res "1.prems" show ?thesis by auto
  next
    case (Some t)
    obtain w i v where t: "t = (w, i, v)" by (cases t)
    from res Some t have v: "v" and w2: "\<not> length w < 2" and nc: "\<not> 0 < length (children n)"
      by (auto split: if_splits)
    show ?thesis
    proof (cases "hd w = CHR '':''")
      case False
      with res Some t v w2 nc "1.prems"(3) show ?thesis
        by (auto simp: Let_def split: if_splits)
    next
      case True
      let ?p1 = "if 0 < i then drop i pth else pth"
      show ?thesis
      proof (cases "length w < length ?p1")
        case False
        with res Some t v w2 nc True "1.prems"(3) show ?thesis
          by (auto simp: Let_def split: if_splits)
      next
        case lt: True
        let ?fresh = "Node [] [] [] None 1 static False fp :: 'a node"
        from res Some t v w2 nc True lt obtain c where
          c: "insertChild ?fresh (drop (length w) ?p1) fp hs = Inr c"
          and n': "children n' = [Node w [] [c] None 1 param False fp]" "priority n' = priority n"
          by (auto simp: Let_def split: if_splits sum.splits)
        have "prioSorted (children c) \<and> (\<forall>c'\<in>set (children c). prioBound N c' \<and> prioOrdered c') \<and>
            priority c = priority ?fresh"
          using v w2 nc True lt "1.prems"(3) c
          by (intro "1.IH" [of t w "(i, v)" i v, OF Some _ refl _ w2 nc True refl refl lt])
             (simp_all add: t)
        with "1.prems"(3) have "prioBound N c" "prioOrdered c"
          by (auto simp: prioBound_iff [of N c] prioOrdered_iff [of c])
        with n' "1.prems"(3) show ?thesis by simp
      qed
    qed
  qed
qed

lemma walk_Inr_ok:
  "walk n pth fp pfi hs = Inr n' \<Longrightarrow>
   \<not> (longestCommonPrefix pth (path n) < length (path n) \<and>
      length fp < pfi + longestCommonPrefix pth (path n))"
  by (subst (asm) walk.simps) (auto simp: Let_def split: if_splits)

lemma unat32_pred: "1 \<le> unat (x :: 32 word) \<Longrightarrow> unat (x - 1) = unat x - 1"
  by (metis One_nat_def not_one_le_zero unat_0 unat_minus_one)

lemma prioBound_prio: "prioBound N n \<Longrightarrow> unat (priority n) \<le> N"
  by (cases n) simp

lemma prioBound_children: "prioBound N n \<Longrightarrow> \<forall>c\<in>set (children n). prioBound N c"
  by (cases n) simp

lemma prioOrdered_sorted: "prioOrdered n \<Longrightarrow> prioSorted (children n)"
  by (cases n) simp

lemma prioOrdered_children: "prioOrdered n \<Longrightarrow> \<forall>c\<in>set (children n). prioOrdered c"
  by (cases n) simp

lemma prioBoundI:
  "unat (priority n) \<le> N \<Longrightarrow> \<forall>c\<in>set (children n). prioBound N c \<Longrightarrow> prioBound N n"
  by (cases n) simp

lemma prioOrderedI:
  "prioSorted (children n) \<Longrightarrow> \<forall>c\<in>set (children n). prioOrdered c \<Longrightarrow> prioOrdered n"
  by (cases n) simp

lemma prioOrdered_bump [simp]: "prioOrdered (bumpPriority c) = prioOrdered c"
  by (cases c) (simp add: bumpPriority_def)

lemma prioBound_bump:
  assumes "prioBound N c" "Suc N < 2 ^ 32"
  shows "prioBound (Suc N) (bumpPriority c)"
proof (rule prioBoundI)
  from prioBound_prio [OF assms(1)] assms(2)
  have "unat (priority c + 1) = unat (priority c) + 1" by (simp add: unat32_succ)
  with prioBound_prio [OF assms(1)] show "unat (priority (bumpPriority c)) \<le> Suc N" by simp
  from prioBound_children [OF assms(1)]
  show "\<forall>x\<in>set (children (bumpPriority c)). prioBound (Suc N) x"
    using prioBound_mono [of N _ "Suc N"] by auto
qed

lemma nodeI:
  "prioSorted (children n) \<Longrightarrow> \<forall>c\<in>set (children n). prioBound N c \<and> prioOrdered c \<Longrightarrow>
   unat (priority n) \<le> N \<Longrightarrow> prioBound N n \<and> prioOrdered n"
  by (cases n) auto

lemma set_update_cases: "x \<in> set (cs[k := c]) \<Longrightarrow> x = c \<or> x \<in> set cs"
  using set_update_subset_insert [of cs k c] by auto

lemma walkNode_prio:
  assumes "prioSorted (children n)" "\<forall>c\<in>set (children n). prioBound N c \<and> prioOrdered c"
    "1 \<le> unat (priority n)" "unat (priority n) \<le> Suc N"
  shows "prioSorted (children (walkNode n pth fp pfi)) \<and>
    (\<forall>c\<in>set (children (walkNode n pth fp pfi)). prioBound N c \<and> prioOrdered c) \<and>
    priority (walkNode n pth fp pfi) = priority n"
proof (cases "longestCommonPrefix pth (path n) < length (path n)")
  case False
  with assms show ?thesis by (simp add: walkNode_def)
next
  case True
  from assms(3,4) have "unat (priority n - 1) \<le> N" by (simp add: unat32_pred)
  with True assms(1,2) show ?thesis
    by (simp add: walkNode_def splitEdge_def)
qed

lemma walk_prio:
  "prioSorted (children n) \<Longrightarrow> \<forall>c\<in>set (children n). prioBound N c \<and> prioOrdered c \<Longrightarrow>
   1 \<le> unat (priority n) \<Longrightarrow> unat (priority n) \<le> Suc N \<Longrightarrow> Suc N < 2 ^ 32 \<Longrightarrow>
   walk n pth fp pfi hs = Inr n' \<Longrightarrow>
   prioSorted (children n') \<and> (\<forall>c\<in>set (children n'). prioBound (Suc N) c \<and> prioOrdered c) \<and>
   priority n' = priority n"
proof (induction n pth fp pfi hs arbitrary: n' rule: walk.induct)
  case (1 n pth fp pfi hs)
  let ?n1 = "walkNode n pth fp pfi"
  let ?p1 = "walkRest n pth"
  note ok = walk_Inr_ok [OF "1.prems"(6)]
  from walkNode_prio [OF "1.prems"(1-4), of pth fp pfi]
  have so1: "prioSorted (children ?n1)"
    and b1: "\<forall>c\<in>set (children ?n1). prioBound N c \<and> prioOrdered c"
    and p1: "priority ?n1 = priority n" by auto
  from b1 have b1': "\<forall>c\<in>set (children ?n1). prioBound (Suc N) c \<and> prioOrdered c"
    using prioBound_mono [of N _ "Suc N"] by auto
  from "1.prems"(6) show ?case
  proof (cases rule: walk_Inr_cases)
    case here
    with so1 b1' p1 show ?thesis by simp
  next
    case (wild c cs c')
    from wild(3) b1 so1 have c: "prioBound N c" "prioOrdered c" and cs: "prioSorted (c # cs)"
      by auto
    from c(1) have cN: "unat (priority c) \<le> N" by (rule prioBound_prio)
    with "1.prems"(5) have up: "unat (priority c + 1) = unat (priority c) + 1"
      by (simp add: unat32_succ)
    have pre: "prioSorted (children (bumpPriority c))"
      "\<forall>x\<in>set (children (bumpPriority c)). prioBound N x \<and> prioOrdered x"
      "1 \<le> unat (priority (bumpPriority c))" "unat (priority (bumpPriority c)) \<le> Suc N"
      using prioBound_children [OF c(1)] prioOrdered_sorted [OF c(2)]
        prioOrdered_children [OF c(2)] cN up by auto
    from "1.IH"(1) [OF refl ok refl wild(1) refl wild(2,3,4) [unfolded walkNode_def walkRest_def]
        pre "1.prems"(5) wild(5) [unfolded walkNode_def walkRest_def]]
    have r: "prioSorted (children c')"
      "\<forall>x\<in>set (children c'). prioBound (Suc N) x \<and> prioOrdered x"
      "priority c' = priority c + 1" by auto
    from r(3) cN up have "unat (priority c') \<le> Suc N" by simp
    from nodeI [OF r(1,2) this] have c': "prioBound (Suc N) c'" "prioOrdered c'" by simp_all
    have "priority c \<le> priority c'" using r(3) up by (simp add: word_le_nat_alt)
    with cs have "prioSorted (c' # cs)" by (auto simp: prioSorted_def)
    with wild(3,6) c' b1' p1 show ?thesis by (auto simp: setChildren_def)
  next
    case (child k n2 k' c')
    from incrementChildPrio_Inr [OF child(4)] have f: "k < length (children ?n1)" "k' \<le> k"
      "children n2 = rot k' k ((children ?n1)[k := bumpPriority (children ?n1 ! k)])"
      "priority n2 = priority ?n1" by simp_all
    let ?c = "children ?n1 ! k"
    from f(1) b1 have c: "prioBound N ?c" "prioOrdered ?c" by auto
    from c(1) have cN: "unat (priority ?c) \<le> N" by (rule prioBound_prio)
    with "1.prems"(5) have up: "unat (priority ?c + 1) = unat (priority ?c) + 1"
      by (simp add: unat32_succ)
    from cN "1.prems"(5) have nov: "unat (priority ?c) + 1 < 2 ^ 32" by simp
    from incrementChildPrio_sorted [OF child(4) so1 nov] have so2: "prioSorted (children n2)" .
    from f have k'len: "k' < length (children n2)" by (simp add: length_rot)
    from f have nth: "children n2 ! k' = bumpPriority ?c" by (simp add: rot_nth)
    have set2: "set (children n2) = set ((children ?n1)[k := bumpPriority ?c])"
      using f by (simp add: set_rot)
    have bb: "prioBound (Suc N) (bumpPriority ?c)" "prioOrdered (bumpPriority ?c)"
      using prioBound_bump [OF c(1) "1.prems"(5)] c(2) by simp_all
    have b2: "\<forall>x\<in>set (children n2). prioBound (Suc N) x \<and> prioOrdered x"
    proof
      fix x assume "x \<in> set (children n2)"
      with set2 have "x \<in> set ((children ?n1)[k := bumpPriority ?c])" by simp
      then have "x = bumpPriority ?c \<or> x \<in> set (children ?n1)"
        by (rule set_update_cases)
      with bb b1' show "prioBound (Suc N) x \<and> prioOrdered x" by auto
    qed
    have pre: "prioSorted (children (children n2 ! k'))"
      "\<forall>x\<in>set (children (children n2 ! k')). prioBound N x \<and> prioOrdered x"
      "1 \<le> unat (priority (children n2 ! k'))" "unat (priority (children n2 ! k')) \<le> Suc N"
      unfolding nth
      using prioBound_children [OF c(1)] prioOrdered_sorted [OF c(2)]
        prioOrdered_children [OF c(2)] cN up by auto
    from "1.IH"(2) [OF refl ok refl child(1) refl child(2,3,4) [unfolded walkNode_def walkRest_def]
        refl pre "1.prems"(5) child(5) [unfolded walkNode_def walkRest_def]]
    have r: "prioSorted (children c')"
      "\<forall>x\<in>set (children c'). prioBound (Suc N) x \<and> prioOrdered x"
      "priority c' = priority (children n2 ! k')" by auto
    from r(3) nth up cN have "unat (priority c') \<le> Suc N" by simp
    from nodeI [OF r(1,2) this] have c': "prioBound (Suc N) c'" "prioOrdered c'" by simp_all
    from prioSorted_update [OF so2 k'len r(3)]
    have so': "prioSorted ((children n2)[k' := c'])" .
    have "\<forall>x\<in>set ((children n2)[k' := c']). prioBound (Suc N) x \<and> prioOrdered x"
      using b2 c' by (auto dest!: set_update_cases)
    with so' child(6) f(4) p1 show ?thesis by (simp add: setChildren_def)
  next
    case (new n2 n3 k' childPos c')
    let ?fresh = "Node [] [] [] None 0 static False fp :: 'a node"
    have ch2: "children n2 = children ?n1 @ [?fresh]" and ix2: "indices n2 = indices ?n1 @ [hd ?p1]"
      by (simp_all add: new(6) newChild_def)
    have so2: "prioSorted (children n2)"
      using so1 by (simp add: ch2 prioSorted_def sorted_wrt_append)
    have b2: "\<forall>x\<in>set (children n2). prioBound N x \<and> prioOrdered x"
      using b1 by (simp add: ch2)
    let ?pos = "length (indices n2) - 1"
    from incrementChildPrio_Inr [OF new(7)] have f: "?pos < length (children n2)" "k' \<le> ?pos"
      "children n3 = rot k' ?pos ((children n2)[?pos := bumpPriority (children n2 ! ?pos)])"
      "priority n3 = priority n2" by simp_all
    let ?c = "children n2 ! ?pos"
    from f(1) b2 have c: "prioBound N ?c" "prioOrdered ?c" by auto
    from c(1) have cN: "unat (priority ?c) \<le> N" by (rule prioBound_prio)
    with "1.prems"(5) have up: "unat (priority ?c + 1) = unat (priority ?c) + 1"
      by (simp add: unat32_succ)
    from cN "1.prems"(5) have nov: "unat (priority ?c) + 1 < 2 ^ 32" by simp
    from incrementChildPrio_sorted [OF new(7) so2 nov] have so3: "prioSorted (children n3)" .
    have len3: "length (children n3) = length (children n2)" using f by (simp add: length_rot)
    have set3: "set (children n3) = set ((children n2)[?pos := bumpPriority ?c])"
      using f by (simp add: set_rot)
    have bb: "prioBound (Suc N) (bumpPriority ?c)" "prioOrdered (bumpPriority ?c)"
      using prioBound_bump [OF c(1) "1.prems"(5)] c(2) by simp_all
    have b3: "\<forall>x\<in>set (children n3). prioBound (Suc N) x \<and> prioOrdered x"
    proof
      fix x assume "x \<in> set (children n3)"
      with set3 have "x \<in> set ((children n2)[?pos := bumpPriority ?c])" by simp
      then have "x = bumpPriority ?c \<or> x \<in> set (children n2)"
        by (rule set_update_cases)
      with bb b2 show "prioBound (Suc N) x \<and> prioOrdered x"
        using prioBound_mono [of N _ "Suc N"] by auto
    qed
    have cp: "childPos < length (children n3)"
      using new(8) f len3 by (auto simp: ch2)
    let ?x = "children n3 ! childPos"
    from cp b3 have x: "prioBound (Suc N) ?x" "prioOrdered ?x" by auto
    then have prex: "\<forall>y\<in>set (children ?x). prioBound (Suc N) y \<and> prioOrdered y"
      "prioSorted (children ?x)"
      using prioBound_children [of "Suc N" ?x] prioOrdered_sorted [of ?x]
        prioOrdered_children [of ?x] by auto
    from insertChild_prio [OF prex _ new(9)]
    have r: "prioSorted (children c')"
      "\<forall>y\<in>set (children c'). prioBound (Suc N) y \<and> prioOrdered y"
      "priority c' = priority ?x" by auto
    from r(3) prioBound_prio [OF x(1)] have "unat (priority c') \<le> Suc N" by simp
    from nodeI [OF r(1,2) this] have c': "prioBound (Suc N) c'" "prioOrdered c'" by simp_all
    from prioSorted_update [OF so3 cp r(3)]
    have so': "prioSorted ((children n3)[childPos := c'])" .
    have "\<forall>x\<in>set ((children n3)[childPos := c']). prioBound (Suc N) x \<and> prioOrdered x"
      using b3 c' by (auto dest!: set_update_cases)
    moreover have "priority n2 = priority ?n1" by (simp add: new(6) newChild_def)
    ultimately show ?thesis using so' new(10) f(4) p1 by (simp add: setChildren_def)
  next
    case wildins
    from b1' have "\<forall>c\<in>set (children ?n1). prioBound (Suc N) c \<and> prioOrdered c" .
    from insertChild_prio [OF this so1 _ wildins(5)] p1 show ?thesis by simp
  qed
qed

text \<open>
  The order is an invariant of registration: after any sequence of fewer than \<open>2^32\<close>
  registrations that did not panic, the children of every node of every tree are in
  non-increasing order of priority.
\<close>

definition rootInv :: "nat \<Rightarrow> 'h node \<Rightarrow> bool" where
  "rootInv k r \<longleftrightarrow>
     prioSorted (children r) \<and> (\<forall>c\<in>set (children r). prioBound k c \<and> prioOrdered c) \<and>
     unat (priority r) \<le> k"

lemma rootInv_mono: "rootInv k r \<Longrightarrow> k \<le> k' \<Longrightarrow> rootInv k' r"
  using prioBound_mono [of k _ k'] by (auto simp: rootInv_def)

lemma rootInv_emptyNode: "rootInv k emptyNode"
  by (simp add: rootInv_def emptyNode_def)

lemma rootInv_ordered: "rootInv k r \<Longrightarrow> prioOrdered r"
  by (rule prioOrderedI) (auto simp: rootInv_def)

lemma addRoute_prio:
  assumes inv: "rootInv k r" and k: "Suc k < 2 ^ 32" and ok: "addRoute r pth hs = Inr r'"
  shows "rootInv (Suc k) r'"
proof -
  let ?n = "bumpPriority r"
  from inv have so: "prioSorted (children ?n)"
    and b: "\<forall>c\<in>set (children ?n). prioBound k c \<and> prioOrdered c"
    and p: "unat (priority r) \<le> k" by (simp_all add: rootInv_def)
  from p k have up: "unat (priority r + 1) = unat (priority r) + 1" by (simp add: unat32_succ)
  then have p1: "1 \<le> unat (priority ?n)" and p2: "unat (priority ?n) \<le> Suc k"
    using p by simp_all
  show ?thesis
  proof (cases "length (path ?n) = 0 \<and> length (children ?n) = 0")
    case True
    with ok obtain n' where ins: "insertChild ?n pth pth hs = Inr n'"
      and r': "r' = Node (path n') (indices n') (children n') (handlers n') (priority n') static
                 (wildChild n') (fullPath n')"
      by (auto simp: addRoute_def Let_def split: sum.splits)
    from b have b': "\<forall>c\<in>set (children ?n). prioBound (Suc k) c \<and> prioOrdered c"
      using prioBound_mono [of k _ "Suc k"] by auto
    from insertChild_prio [OF b' so _ ins] p2 show ?thesis
      by (simp add: r' rootInv_def)
  next
    case False
    with ok have w: "walk ?n pth pth 0 hs = Inr r'"
      by (auto simp: addRoute_def Let_def)
    from walk_prio [OF so b p1 p2 k w] p2 show ?thesis
      by (simp add: rootInv_def)
  qed
qed

lemma Engine_addRoute_prio:
  assumes inv: "\<forall>m r. trees m = Some r \<longrightarrow> rootInv k r" and k: "Suc k < 2 ^ 32"
    and ok: "Engine_addRoute trees method pth hs = Inr trees'"
  shows "\<forall>m r. trees' m = Some r \<longrightarrow> rootInv (Suc k) r"
proof -
  let ?root = "case trees method of None \<Rightarrow> emptyNode | Some r \<Rightarrow> r"
  from inv have ri: "rootInv k ?root"
    by (auto simp: rootInv_emptyNode split: option.splits)
  from ok obtain root' where ar: "addRoute ?root pth (Some hs) = Inr root'"
    and t': "trees' = trees(method \<mapsto> root')"
    by (auto simp: Engine_addRoute_def Let_def split: list.splits if_splits sum.splits)
  from addRoute_prio [OF ri k ar] have "rootInv (Suc k) root'" .
  with inv show ?thesis
    using rootInv_mono [of k _ "Suc k"] by (auto simp: t')
qed

lemma registerAll_prio:
  "\<forall>m r. trees m = Some r \<longrightarrow> rootInv k r \<Longrightarrow> k + length rs < 2 ^ 32 \<Longrightarrow>
   registerAll trees rs = Inr trees' \<Longrightarrow>
   \<forall>m r. trees' m = Some r \<longrightarrow> rootInv (k + length rs) r"
proof (induction rs arbitrary: trees k)
  case Nil
  then show ?case by simp
next
  case (Cons x rs)
  obtain mth pth hs where x: "x = (mth, pth, hs)" by (cases x) auto
  from Cons.prems(3) obtain t1 where e: "Engine_addRoute trees mth pth hs = Inr t1"
    and rest: "registerAll t1 rs = Inr trees'"
    by (auto simp: x split: sum.splits)
  from Cons.prems(2) have k: "Suc k < 2 ^ 32" and k': "Suc k + length rs < 2 ^ 32" by simp_all
  from Engine_addRoute_prio [OF Cons.prems(1) k e]
  have "\<forall>m r. t1 m = Some r \<longrightarrow> rootInv (Suc k) r" .
  from Cons.IH [OF this k' rest] show ?case by simp
qed

lemma registerAll_prioOrdered:
  assumes "registerAll Map.empty rs = Inr trees" "length rs < 2 ^ 32" "trees m = Some root"
  shows "prioOrdered root"
proof -
  have "\<forall>m r. (Map.empty :: string \<rightharpoonup> 'a node) m = Some r \<longrightarrow> rootInv 0 r" by simp
  from registerAll_prio [OF this _ assms(1)] assms(2,3) have "rootInv (length rs) root" by simp
  then show ?thesis by (rule rootInv_ordered)
qed

text \<open>The tree after \<^verbatim>\<open>/users/:id/posts\<close> and then \<^verbatim>\<open>/users/:id/foo\<close>.\<close>

definition postsFooTree :: "'h list \<Rightarrow> 'h list \<Rightarrow> 'h node" where
  "postsFooTree h1 h2 =
     Node ''/users/'' []
       [Node '':id'' ''/''
          [Node ''/posts'' [] [] (Some h1) 2 static False ''/users/:id/posts'',
           Node ''/foo'' [] [] (Some h2) 0 static False ''/users/:id/foo'']
          None 2 param False ''/users/:id/posts'']
       None 2 static True []"

lemma register_posts:
  "registerAll Map.empty [(m, ''/users/:id/posts'', h1)] =
   Inr [m \<mapsto> Node ''/users/'' []
       [Node '':id'' []
          [Node ''/posts'' [] [] (Some h1) 1 static False ''/users/:id/posts'']
          None 1 param False ''/users/:id/posts'']
       None 1 static True []]"
  by (simp add: Engine_addRoute_def addRoute_def bumpPriority_def emptyNode_def
      Let_def insertChild.simps)

lemma walk_foo:
  "walk (Node ''/users/'' []
       [Node '':id'' []
          [Node ''/posts'' [] [] (Some h1) 1 static False ''/users/:id/posts'']
          None 1 param False ''/users/:id/posts'']
       None 2 static True []) ''/users/:id/foo'' ''/users/:id/foo'' 0 (Some h2)
   = Inr (postsFooTree h1 h2)"
  by (simp add: walk.simps Let_def wildcardMatches_def bumpPriority_def setChildren_def
      incrementChildPrio_def insertChild.simps postsFooTree_def)

lemma register_postsFoo:
  "registerAll Map.empty [(m, ''/users/:id/posts'', h1), (m, ''/users/:id/foo'', h2)] =
   Inr [m \<mapsto> postsFooTree h1 h2]"
  using register_posts [of m h1]
  by (simp add: Engine_addRoute_def addRoute_def bumpPriority_def emptyNode_def
      Let_def insertChild.simps walk_foo split: sum.splits)

text \<open>
  C8 at a second route below a parameter. After \<^verbatim>\<open>/users/:id/posts\<close> and
  \<^verbatim>\<open>/users/:id/foo\<close> are registered, the children of the parameter node are
  \<^verbatim>\<open>/posts\<close> with priority 2 and \<^verbatim>\<open>/foo\<close> with priority 0, although one
  route was inserted through each: inserting the second route incremented the priority
  of the sibling, not of the subtree the route went into. The index string of the
  parameter node has one byte for two children, and the lookup of
  \<^verbatim>\<open>/users/1/foo\<close> is not-found.
\<close>

theorem new_subtree_priority_not_incremented:
  "registerAll Map.empty [(''GET'', ''/users/:id/posts'', [1::nat]), (''GET'', ''/users/:id/foo'', [2])] =
     Inr [''GET'' \<mapsto> postsFooTree [1] [2]] \<and>
   map (\<lambda>c. (path c, priority c)) (children (hd (children (postsFooTree [1::nat] [2])))) =
     [(''/posts'', 2), (''/foo'', 0)] \<and>
   lookupAfter [(''GET'', ''/users/:id/posts'', [1::nat]), (''GET'', ''/users/:id/foo'', [2])]
     ''GET'' ''/users/1/foo'' = Inr notFound"
proof -
  have g: "getValue (postsFooTree [1::nat] [2]) ''/users/1/foo'' = Inr notFound"
    by (simp add: getValue_def postsFooTree_def getValue_walk.simps Let_def)
  have c: "map (\<lambda>c. (path c, priority c)) (children (hd (children (postsFooTree [1::nat] [2])))) =
     [(''/posts'', 2), (''/foo'', 0)]"
    by (simp add: postsFooTree_def)
  show ?thesis
    unfolding lookupAfter_def register_postsFoo
    by (simp only: sum.case Engine_lookup_def fun_upd_same option.case g c)
qed

end
